theory Spec2Isabelle
  imports Main "HOL-Library.Word" "HOL-Library.AList" "HOL-Library.Sublist"
begin

unbundle bit_operations_syntax

section \<open>Data model\<close>

text \<open>
  The program under verification is \<^verbatim>\<open>parse_json_stream\<close> of \<^verbatim>\<open>src/app.py\<close>: a
  generator that reads byte chunks from an HTTP response, decodes every chunk as UTF-8,
  appends the text to a buffer, cuts the buffer at its first \<^verbatim>\<open>{\<close> and then decodes
  JSON values from the front of the buffer for as long as \<^verbatim>\<open>raw_decode\<close> succeeds.

  A chunk is a Python \<^verbatim>\<open>bytes\<close> object: a list of 8-bit words. The buffer is a Python
  \<^verbatim>\<open>str\<close>: a list of Unicode code points, each a natural number.
\<close>

type_synonym byte = "8 word"
type_synonym codepoint = nat
type_synonym pystr = "codepoint list"

definition ord :: "char \<Rightarrow> codepoint" where
  ord_def [simp]: "ord c = of_char c"

definition str :: "string \<Rightarrow> pystr" where
  "str s = map ord s"

text \<open>The bytes of an ASCII literal, as in Python's \<^verbatim>\<open>b"..."\<close>.\<close>

definition ascii :: "string \<Rightarrow> byte list" where
  "ascii s = map (\<lambda>c. of_nat (of_char c)) s"

text \<open>
  The values \<^verbatim>\<open>raw_decode\<close> builds: \<^verbatim>\<open>None\<close>, \<^verbatim>\<open>bool\<close>, \<^verbatim>\<open>int\<close>, \<^verbatim>\<open>float\<close>,
  \<^verbatim>\<open>str\<close>, \<^verbatim>\<open>list\<close> and \<^verbatim>\<open>dict\<close>. A float is kept as the text handed to
  \<^verbatim>\<open>float()\<close> (the matched number, or one of \<^verbatim>\<open>NaN\<close>, \<^verbatim>\<open>Infinity\<close>,
  \<^verbatim>\<open>-Infinity\<close>): no floating-point arithmetic is modelled. A dict is an association
  list in insertion order with distinct keys.
\<close>

datatype json =
    PyNone
  | PyBool bool
  | PyInt int
  | PyFloat pystr
  | PyStr pystr
  | PyList "json list"
  | PyDict "(pystr \<times> json) list"

text \<open>
  The two exceptions of the program: \<^verbatim>\<open>json.JSONDecodeError\<close>, which the generator
  catches, and \<^verbatim>\<open>UnicodeDecodeError\<close>, which it does not.
\<close>

datatype error = JSONDecodeError | UnicodeDecodeError

section \<open>\<^verbatim>\<open>bytes.decode("utf-8")\<close>\<close>

text \<open>
  Strict UTF-8 decoding, as \<^verbatim>\<open>chunk.decode("utf-8")\<close> does it: the well-formed byte
  sequences of the Unicode standard (no overlong forms, no surrogates, nothing above
  U+10FFFF). The first ill-formed or truncated sequence raises \<^verbatim>\<open>UnicodeDecodeError\<close>.
\<close>

definition is_cont :: "byte \<Rightarrow> bool" where
  "is_cont b = (0x80 \<le> b \<and> b \<le> 0xBF)"

definition cont_bits :: "byte \<Rightarrow> nat" where
  "cont_bits b = unat (b AND 0x3F)"

text \<open>
  \<open>utf8_first b0 bs\<close> decodes the character that starts with the byte \<open>b0\<close> and goes
  on in \<open>bs\<close>: its code point and the number of bytes of \<open>bs\<close> it takes.
\<close>

definition utf8_first :: "byte \<Rightarrow> byte list \<Rightarrow> (codepoint \<times> nat) option" where
  "utf8_first b0 bs =
     (if b0 < 0x80 then Some (unat b0, 0)
      else if 0xC2 \<le> b0 \<and> b0 \<le> 0xDF then
        (case bs of
           b1 # _ \<Rightarrow>
             if is_cont b1 then Some (unat (b0 AND 0x1F) * 64 + cont_bits b1, 1) else None
         | _ \<Rightarrow> None)
      else if 0xE0 \<le> b0 \<and> b0 \<le> 0xEF then
        (case bs of
           b1 # b2 # _ \<Rightarrow>
             if is_cont b1 \<and> is_cont b2
                \<and> (b0 = 0xE0 \<longrightarrow> 0xA0 \<le> b1) \<and> (b0 = 0xED \<longrightarrow> b1 \<le> 0x9F)
             then Some ((unat (b0 AND 0x0F) * 64 + cont_bits b1) * 64 + cont_bits b2, 2)
             else None
         | _ \<Rightarrow> None)
      else if 0xF0 \<le> b0 \<and> b0 \<le> 0xF4 then
        (case bs of
           b1 # b2 # b3 # _ \<Rightarrow>
             if is_cont b1 \<and> is_cont b2 \<and> is_cont b3
                \<and> (b0 = 0xF0 \<longrightarrow> 0x90 \<le> b1) \<and> (b0 = 0xF4 \<longrightarrow> b1 \<le> 0x8F)
             then Some (((unat (b0 AND 0x07) * 64 + cont_bits b1) * 64 + cont_bits b2) * 64
                        + cont_bits b3, 3)
             else None
         | _ \<Rightarrow> None)
      else None)"

fun utf8_decode :: "byte list \<Rightarrow> error + pystr" where
  "utf8_decode [] = Inr []"
| "utf8_decode (b0 # bs) =
     (case utf8_first b0 bs of
        None \<Rightarrow> Inl UnicodeDecodeError
      | Some (c, n) \<Rightarrow>
          (case utf8_decode (drop n bs) of
             Inl e \<Rightarrow> Inl e
           | Inr cs \<Rightarrow> Inr (c # cs)))"

section \<open>The JSON decoder of the standard library\<close>

text \<open>
  \<^verbatim>\<open>json.JSONDecoder.raw_decode\<close> is library code. It is modelled after
  \<^verbatim>\<open>json/decoder.py\<close> and \<^verbatim>\<open>json/scanner.py\<close> of CPython: \<^verbatim>\<open>py_scanstring\<close>,
  \<^verbatim>\<open>JSONObject\<close>, \<^verbatim>\<open>JSONArray\<close>, \<^verbatim>\<open>_scan_once\<close> and \<^verbatim>\<open>raw_decode\<close>, with
  the digits and hexadecimal digits of the C scanner that CPython runs (ASCII only).
  Where the library works with a string and an index \<^verbatim>\<open>end\<close> into it, the model works
  with the rest of the string from \<^verbatim>\<open>end\<close> on; \<open>raw_decode\<close> turns the rest back into
  the index. Every \<^verbatim>\<open>raise JSONDecodeError\<close> and every \<^verbatim>\<open>StopIteration\<close> of the
  scanner (which \<^verbatim>\<open>raw_decode\<close>, \<^verbatim>\<open>JSONObject\<close> and \<^verbatim>\<open>JSONArray\<close> turn into
  \<^verbatim>\<open>JSONDecodeError\<close>) is the result \<open>Fail\<close>. The limits of the interpreter (recursion
  depth, the digit limit of \<^verbatim>\<open>int()\<close>, memory) are not modelled.
\<close>

datatype 'a scan = Ok 'a | Fail | OutOfFuel

definition is_ws :: "codepoint \<Rightarrow> bool" where
  "is_ws c = (c = ord CHR '' '' \<or> c = 0x09 \<or> c = 0x0A \<or> c = 0x0D)"

text \<open>\<^verbatim>\<open>end = _w(s, end).end()\<close> with \<^verbatim>\<open>WHITESPACE = re.compile(r'[ \t\n\r]*')\<close>.\<close>

definition skip_ws :: "pystr \<Rightarrow> pystr" where
  "skip_ws s = dropWhile is_ws s"

definition is_digit :: "codepoint \<Rightarrow> bool" where
  "is_digit c = (ord CHR ''0'' \<le> c \<and> c \<le> ord CHR ''9'')"

subsection \<open>Strings\<close>

definition hex_value :: "codepoint \<Rightarrow> nat option" where
  "hex_value c =
     (if ord CHR ''0'' \<le> c \<and> c \<le> ord CHR ''9'' then Some (c - ord CHR ''0'')
      else if ord CHR ''a'' \<le> c \<and> c \<le> ord CHR ''f'' then Some (c - ord CHR ''a'' + 10)
      else if ord CHR ''A'' \<le> c \<and> c \<le> ord CHR ''F'' then Some (c - ord CHR ''A'' + 10)
      else None)"

text \<open>
  \<^verbatim>\<open>_decode_uXXXX(s, pos)\<close>, applied to the text after the \<^verbatim>\<open>u\<close>: the value of four
  hexadecimal digits.
\<close>

definition decode_uXXXX :: "pystr \<Rightarrow> nat option" where
  "decode_uXXXX s =
     (if 4 \<le> length s \<and> list_all (\<lambda>c. hex_value c \<noteq> None) (take 4 s)
      then Some (foldl (\<lambda>a c. 16 * a + the (hex_value c)) 0 (take 4 s))
      else None)"

text \<open>The table \<^verbatim>\<open>BACKSLASH\<close>.\<close>

definition BACKSLASH :: "codepoint \<Rightarrow> codepoint option" where
  "BACKSLASH esc =
     (if esc = 0x22 then Some 0x22
      else if esc = 0x5C then Some 0x5C
      else if esc = ord CHR ''/'' then Some (ord CHR ''/'')
      else if esc = ord CHR ''b'' then Some 0x08
      else if esc = ord CHR ''f'' then Some 0x0C
      else if esc = ord CHR ''n'' then Some 0x0A
      else if esc = ord CHR ''r'' then Some 0x0D
      else if esc = ord CHR ''t'' then Some 0x09
      else None)"

definition append_char :: "codepoint \<Rightarrow> (pystr \<times> pystr) scan \<Rightarrow> (pystr \<times> pystr) scan" where
  "append_char c r = (case r of Ok (cs, rest) \<Rightarrow> Ok (c # cs, rest) | Fail \<Rightarrow> Fail | OutOfFuel \<Rightarrow> OutOfFuel)"

text \<open>
  \<^verbatim>\<open>py_scanstring(s, end, strict)\<close>, from the character after the opening quote: the
  decoded string and the text after the closing quote. The library takes the text in
  chunks up to the next quote, backslash or control character (the regular expression
  \<^verbatim>\<open>STRINGCHUNK\<close>); the model takes it character by character. The quote is \<open>0x22\<close>
  and the backslash \<open>0x5C\<close>. With \<^verbatim>\<open>strict\<close> a control character (below \<open>0x20\<close>)
  is an error; without it the character is part of the string.
\<close>

fun py_scanstring :: "bool \<Rightarrow> pystr \<Rightarrow> (pystr \<times> pystr) scan" where
  "py_scanstring strict [] = Fail"
| "py_scanstring strict (c # cs) =
     (if c = 0x22 then Ok ([], cs)
      else if c \<noteq> 0x5C then
        (if c < 0x20 \<and> strict then Fail else append_char c (py_scanstring strict cs))
      else
        (case cs of
           [] \<Rightarrow> Fail
         | esc # r \<Rightarrow>
             if esc \<noteq> ord CHR ''u'' then
               (case BACKSLASH esc of
                  None \<Rightarrow> Fail
                | Some ch \<Rightarrow> append_char ch (py_scanstring strict r))
             else
               (case decode_uXXXX r of
                  None \<Rightarrow> Fail
                | Some uni \<Rightarrow>
                    if 0xD800 \<le> uni \<and> uni \<le> 0xDBFF \<and> take 2 (drop 4 r) = [0x5C, ord CHR ''u''] then
                      (case decode_uXXXX (drop 6 r) of
                         None \<Rightarrow> Fail
                       | Some uni2 \<Rightarrow>
                           if 0xDC00 \<le> uni2 \<and> uni2 \<le> 0xDFFF then
                             append_char
                               (0x10000 + (push_bit 10 (uni - 0xD800) OR (uni2 - 0xDC00)))
                               (py_scanstring strict (drop 10 r))
                           else append_char uni (py_scanstring strict (drop 4 r)))
                    else append_char uni (py_scanstring strict (drop 4 r)))))"

subsection \<open>Numbers and constants\<close>

text \<open>
  \<^verbatim>\<open>NUMBER_RE = (-?(?:0|[1-9][0-9]*))(\.[0-9]+)?([eE][-+]?[0-9]+)?\<close>: the three groups
  and the text after the match. An optional group that does not match is empty.
\<close>

definition match_integer :: "pystr \<Rightarrow> (pystr \<times> pystr) option" where
  "match_integer s =
     (let (sign, s1) = (case s of [] \<Rightarrow> ([], []) | c # cs \<Rightarrow> if c = ord CHR ''-'' then ([c], cs) else ([], s))
      in case s1 of
           [] \<Rightarrow> None
         | d # ds \<Rightarrow>
             if d = ord CHR ''0'' then Some (sign @ [d], ds)
             else if is_digit d then Some (sign @ d # takeWhile is_digit ds, dropWhile is_digit ds)
             else None)"

definition match_frac :: "pystr \<Rightarrow> pystr \<times> pystr" where
  "match_frac s =
     (case s of
        [] \<Rightarrow> ([], [])
      | c # cs \<Rightarrow>
          if c = ord CHR ''.'' \<and> takeWhile is_digit cs \<noteq> []
          then (c # takeWhile is_digit cs, dropWhile is_digit cs)
          else ([], s))"

definition match_exp :: "pystr \<Rightarrow> pystr \<times> pystr" where
  "match_exp s =
     (case s of
        [] \<Rightarrow> ([], [])
      | c # cs \<Rightarrow>
          if c = ord CHR ''e'' \<or> c = ord CHR ''E'' then
            (let (sign, ds) =
               (case cs of
                  [] \<Rightarrow> ([], [])
                | x # xs \<Rightarrow> if x = ord CHR ''-'' \<or> x = ord CHR ''+'' then ([x], xs) else ([], cs))
             in if takeWhile is_digit ds \<noteq> []
                then (c # sign @ takeWhile is_digit ds, dropWhile is_digit ds)
                else ([], s))
          else ([], s))"

definition match_number :: "pystr \<Rightarrow> (pystr \<times> pystr \<times> pystr \<times> pystr) option" where
  "match_number s =
     (case match_integer s of
        None \<Rightarrow> None
      | Some (integer, r0) \<Rightarrow>
          (let (frac, r1) = match_frac r0; (exp, r2) = match_exp r1
           in Some (integer, frac, exp, r2)))"

text \<open>\<^verbatim>\<open>int(integer)\<close> for a text matched by the first group.\<close>

definition digits_value :: "pystr \<Rightarrow> nat" where
  "digits_value ds = foldl (\<lambda>a d. 10 * a + (d - ord CHR ''0'')) 0 ds"

definition parse_int :: "pystr \<Rightarrow> int" where
  "parse_int txt =
     (case txt of
        [] \<Rightarrow> 0
      | c # cs \<Rightarrow> if c = ord CHR ''-'' then - int (digits_value cs) else int (digits_value txt))"

text \<open>
  The branches of \<^verbatim>\<open>_scan_once\<close> that do not recurse, in the order of the source:
  \<^verbatim>\<open>null\<close>, \<^verbatim>\<open>true\<close>, \<^verbatim>\<open>false\<close>, a number, \<^verbatim>\<open>NaN\<close>, \<^verbatim>\<open>Infinity\<close>,
  \<^verbatim>\<open>-Infinity\<close>, and \<^verbatim>\<open>raise StopIteration\<close> for anything else.
\<close>

definition scan_atom :: "pystr \<Rightarrow> (json \<times> pystr) scan" where
  "scan_atom s =
     (if take 4 s = str ''null'' then Ok (PyNone, drop 4 s)
      else if take 4 s = str ''true'' then Ok (PyBool True, drop 4 s)
      else if take 5 s = str ''false'' then Ok (PyBool False, drop 5 s)
      else
        (case match_number s of
           Some (integer, frac, exp, rest) \<Rightarrow>
             if frac \<noteq> [] \<or> exp \<noteq> [] then Ok (PyFloat (integer @ frac @ exp), rest)
             else Ok (PyInt (parse_int integer), rest)
         | None \<Rightarrow>
             if take 3 s = str ''NaN'' then Ok (PyFloat (str ''NaN''), drop 3 s)
             else if take 8 s = str ''Infinity'' then Ok (PyFloat (str ''Infinity''), drop 8 s)
             else if take 9 s = str ''-Infinity'' then Ok (PyFloat (str ''-Infinity''), drop 9 s)
             else Fail))"

subsection \<open>Objects and arrays\<close>

text \<open>\<^verbatim>\<open>dict(pairs)\<close>: a later pair of the same key replaces the value in place.\<close>

definition dict :: "(pystr \<times> json) list \<Rightarrow> (pystr \<times> json) list" where
  "dict pairs = foldl (\<lambda>d (k, v). AList.update k v d) [] pairs"

text \<open>
  The loop of \<^verbatim>\<open>JSONObject\<close> from the key to the value: the key (the text starts after
  its opening quote), optional whitespace, the colon, optional whitespace. The result is
  the key and the text where the value starts.
\<close>

definition object_key :: "bool \<Rightarrow> pystr \<Rightarrow> (pystr \<times> pystr) option" where
  "object_key strict s =
     (case py_scanstring strict s of
        Ok (key, s1) \<Rightarrow>
          (case skip_ws s1 of
             [] \<Rightarrow> None
           | c # s2 \<Rightarrow> if c \<noteq> ord CHR '':'' then None else Some (key, skip_ws s2))
      | _ \<Rightarrow> None)"

text \<open>
  What follows a value: the closing delimiter (\<open>Close\<close>, with the text after it), a
  comma and the start of the next item (\<open>Continue\<close>, with the text of the next item),
  or an error.
\<close>

datatype after = Close pystr | Continue pystr | Bad

text \<open>
  The loop of \<^verbatim>\<open>JSONObject\<close> after the value: optional whitespace, then \<^verbatim>\<open>}\<close>, or a
  comma, optional whitespace and the opening quote of the next key.
\<close>

definition object_next :: "pystr \<Rightarrow> after" where
  "object_next s =
     (case skip_ws s of
        [] \<Rightarrow> Bad
      | nextchar # s1 \<Rightarrow>
          if nextchar = ord CHR ''}'' then Close s1
          else if nextchar \<noteq> ord CHR '','' then Bad
          else
            (case skip_ws s1 of
               [] \<Rightarrow> Bad
             | q # s2 \<Rightarrow> if q \<noteq> 0x22 then Bad else Continue s2))"

text \<open>
  The loop of \<^verbatim>\<open>JSONArray\<close> after the value: optional whitespace, then \<^verbatim>\<open>]\<close>, or a
  comma and optional whitespace.
\<close>

definition array_next :: "pystr \<Rightarrow> after" where
  "array_next s =
     (case skip_ws s of
        [] \<Rightarrow> Bad
      | nextchar # s1 \<Rightarrow>
          if nextchar = ord CHR '']'' then Close s1
          else if nextchar \<noteq> ord CHR '','' then Bad
          else Continue (skip_ws s1))"

text \<open>
  \<^verbatim>\<open>_scan_once\<close>, \<^verbatim>\<open>JSONObject\<close> and \<^verbatim>\<open>JSONArray\<close> call each other. The first
  argument is fuel: every call takes one unit, and \<open>OutOfFuel\<close> is the result of a call
  without fuel. \<open>object_loop\<close> and \<open>array_loop\<close> are the \<^verbatim>\<open>while True\<close> loops of
  \<^verbatim>\<open>JSONObject\<close> and \<^verbatim>\<open>JSONArray\<close>, with the pairs and values collected so far.
\<close>

function (sequential) scan_once :: "nat \<Rightarrow> bool \<Rightarrow> pystr \<Rightarrow> (json \<times> pystr) scan"
  and JSONObject :: "nat \<Rightarrow> bool \<Rightarrow> pystr \<Rightarrow> (json \<times> pystr) scan"
  and object_loop :: "nat \<Rightarrow> bool \<Rightarrow> pystr \<Rightarrow> (pystr \<times> json) list \<Rightarrow> (json \<times> pystr) scan"
  and JSONArray :: "nat \<Rightarrow> bool \<Rightarrow> pystr \<Rightarrow> (json \<times> pystr) scan"
  and array_loop :: "nat \<Rightarrow> bool \<Rightarrow> pystr \<Rightarrow> json list \<Rightarrow> (json \<times> pystr) scan"
where
  "scan_once 0 strict s = OutOfFuel"
| "scan_once (Suc n) strict s =
     (case s of
        [] \<Rightarrow> Fail
      | nextchar # cs \<Rightarrow>
          if nextchar = 0x22 then
            (case py_scanstring strict cs of
               Ok (v, rest) \<Rightarrow> Ok (PyStr v, rest)
             | Fail \<Rightarrow> Fail
             | OutOfFuel \<Rightarrow> OutOfFuel)
          else if nextchar = ord CHR ''{'' then JSONObject n strict cs
          else if nextchar = ord CHR ''['' then JSONArray n strict cs
          else scan_atom s)"
| "JSONObject 0 strict s = OutOfFuel"
| "JSONObject (Suc n) strict s =
     (case skip_ws s of
        [] \<Rightarrow> Fail
      | nextchar # s1 \<Rightarrow>
          if nextchar = ord CHR ''}'' then Ok (PyDict [], s1)
          else if nextchar \<noteq> 0x22 then Fail
          else object_loop n strict s1 [])"
| "object_loop 0 strict s pairs = OutOfFuel"
| "object_loop (Suc n) strict s pairs =
     (case object_key strict s of
        None \<Rightarrow> Fail
      | Some (key, s1) \<Rightarrow>
          (case scan_once n strict s1 of
             Ok (v, s2) \<Rightarrow>
               (case object_next s2 of
                  Close s3 \<Rightarrow> Ok (PyDict (dict (pairs @ [(key, v)])), s3)
                | Continue s3 \<Rightarrow> object_loop n strict s3 (pairs @ [(key, v)])
                | Bad \<Rightarrow> Fail)
           | Fail \<Rightarrow> Fail
           | OutOfFuel \<Rightarrow> OutOfFuel))"
| "JSONArray 0 strict s = OutOfFuel"
| "JSONArray (Suc n) strict s =
     (case skip_ws s of
        [] \<Rightarrow> array_loop n strict [] []
      | nextchar # s1 \<Rightarrow>
          if nextchar = ord CHR '']'' then Ok (PyList [], s1)
          else array_loop n strict (skip_ws s) [])"
| "array_loop 0 strict s vs = OutOfFuel"
| "array_loop (Suc n) strict s vs =
     (case scan_once n strict s of
        Ok (v, s1) \<Rightarrow>
          (case array_next s1 of
             Close s2 \<Rightarrow> Ok (PyList (vs @ [v]), s2)
           | Continue s2 \<Rightarrow> array_loop n strict s2 (vs @ [v])
           | Bad \<Rightarrow> Fail)
      | Fail \<Rightarrow> Fail
      | OutOfFuel \<Rightarrow> OutOfFuel)"
  by pat_completeness auto

termination
  by (relation "measure (\<lambda>x. case x of
         Inl (Inl (n, _)) \<Rightarrow> n
       | Inl (Inr (n, _)) \<Rightarrow> n
       | Inr (Inl (n, _)) \<Rightarrow> n
       | Inr (Inr (Inl (n, _))) \<Rightarrow> n
       | Inr (Inr (Inr (n, _))) \<Rightarrow> n)") auto

text \<open>
  \<^verbatim>\<open>raw_decode(s)\<close> with \<^verbatim>\<open>idx = 0\<close>: the value at the start of \<open>s\<close> and the index
  where it ends, or \<^verbatim>\<open>JSONDecodeError\<close>. No whitespace is skipped before the value.
  The fuel \<open>3 * length s + 1\<close> is enough for every \<open>s\<close> (lemma \<open>raw_decode_fuel\<close>).
\<close>

definition raw_decode :: "bool \<Rightarrow> pystr \<Rightarrow> error + (json \<times> nat)" where
  "raw_decode strict s =
     (case scan_once (3 * length s + 1) strict s of
        Ok (obj, rest) \<Rightarrow> Inr (obj, length s - length rest)
      | _ \<Rightarrow> Inl JSONDecodeError)"

section \<open>Properties of the decoder\<close>

text \<open>
  Three facts about \<open>raw_decode\<close> carry the proofs about the generator. A successful
  decode consumes at least one character and at most the whole text, and what it leaves
  is the rest of the text (\<open>raw_decode_Inr\<close>). The fuel is always enough
  (\<open>raw_decode_fuel\<close>). A value that starts with a quote, a brace or a bracket is
  decoded in the same way when more text follows it (\<open>raw_decode_append\<close>); a number
  is not, because the digits that follow would belong to it.
\<close>

text \<open>The characters that can continue the match of \<^verbatim>\<open>NUMBER_RE\<close>.\<close>

definition number_char :: "codepoint \<Rightarrow> bool" where
  "number_char c = (is_digit c \<or> c = ord CHR ''.'' \<or> c = ord CHR ''e'' \<or> c = ord CHR ''E'')"

text \<open>
  \<open>stable_end s r\<close>: the value scanned from \<open>s\<close> with rest \<open>r\<close> ends where no further
  input can change it: it starts with a quote, a brace or a bracket, or the rest starts
  with a character that cannot continue a number.
\<close>

definition stable_end :: "pystr \<Rightarrow> pystr \<Rightarrow> bool" where
  "stable_end s r = ((s \<noteq> [] \<and> (hd s = 0x22 \<or> hd s = ord CHR ''{'' \<or> hd s = ord CHR ''['')) \<or>
                      (r \<noteq> [] \<and> \<not> number_char (hd r)))"

lemma suffix_skip_ws: "suffix (skip_ws s) s"
  by (simp add: skip_ws_def suffix_dropWhile)

lemma suffix_dropD: "suffix r (drop k xs) \<Longrightarrow> suffix r xs"
  using suffix_drop suffix_order.trans by blast

lemma append_char_Ok:
  "append_char c x = Ok (v, r) \<longleftrightarrow> (\<exists>v'. x = Ok (v', r) \<and> v = c # v')"
  by (auto simp: append_char_def split: scan.splits)

lemma py_scanstring_suffix:
  "py_scanstring strict s = Ok (v, r) \<Longrightarrow> suffix r s \<and> length r < length s"
proof (induction "length s" arbitrary: s v r rule: less_induct)
  case less
  note IH = less.hyps [rotated]
  show ?case
  proof (cases s)
    case Nil
    with less.prems show ?thesis by simp
  next
    case (Cons c cs)
    with less.prems show ?thesis
      apply (simp split: if_splits list.splits option.splits add: append_char_Ok)
      apply (auto simp: suffix_Cons dest!: IH suffix_dropD)
      done
  qed
qed


lemma length_skip_ws: "length (skip_ws s) \<le> length s"
  by (simp add: skip_ws_def length_dropWhile_le)

lemma suffix_skip_wsD: "suffix r (skip_ws s) \<Longrightarrow> suffix r s"
  using suffix_skip_ws suffix_order.trans by blast

lemma skip_ws_ConsD: "skip_ws s = c # r \<Longrightarrow> suffix r s \<and> length r < length s \<and> \<not> is_ws c"
proof -
  assume a: "skip_ws s = c # r"
  have "suffix (c # r) s" using suffix_skip_ws [of s] a by simp
  then have "suffix r s" by (rule suffix_ConsD)
  moreover have "length (c # r) \<le> length s" using length_skip_ws [of s] a by simp
  moreover have "\<not> is_ws c" using a hd_dropWhile [of is_ws s] by (simp add: skip_ws_def)
  ultimately show ?thesis by simp
qed

lemma length_dropWhile_less: "length (dropWhile P xs) < Suc (length xs)"
  "length (dropWhile P xs) < Suc (Suc (length xs))"
  using length_dropWhile_le [of P xs] by simp_all

lemma match_integer_suffix:
  "match_integer s = Some (i, r) \<Longrightarrow> suffix r s \<and> length r < length s"
  by (auto simp: match_integer_def suffix_Cons suffix_dropWhile length_dropWhile_less
      split: list.splits if_splits)

lemma match_frac_suffix:
  "match_frac s = (f, r) \<Longrightarrow> suffix r s"
  by (auto simp: match_frac_def suffix_Cons suffix_dropWhile split: list.splits if_splits)

lemma match_exp_suffix:
  "match_exp s = (e, r) \<Longrightarrow> suffix r s"
  by (auto simp: match_exp_def suffix_Cons suffix_dropWhile split: list.splits if_splits prod.splits)

lemma match_number_suffix:
  "match_number s = Some (i, f, e, r) \<Longrightarrow> suffix r s \<and> length r < length s"
proof -
  assume a: "match_number s = Some (i, f, e, r)"
  then obtain r0 r1 where i: "match_integer s = Some (i, r0)" and f: "match_frac r0 = (f, r1)"
    and e: "match_exp r1 = (e, r)"
    by (auto simp: match_number_def split: option.splits prod.splits)
  have "suffix r r1" "suffix r1 r0" "suffix r0 s" "length r0 < length s"
    using match_integer_suffix [OF i] match_frac_suffix [OF f] match_exp_suffix [OF e] by auto
  then show ?thesis
    by (meson suffix_length_le suffix_order.trans le_less_trans le_trans)
qed

lemma take_eq_imp_drop: "take n s = t \<Longrightarrow> length t = n \<Longrightarrow> 0 < n \<Longrightarrow> suffix (drop n s) s \<and> length (drop n s) < length s"
  by (auto simp: suffix_drop)

lemma scan_atom_suffix:
  "scan_atom s = Ok (v, r) \<Longrightarrow> suffix r s \<and> length r < length s"
  unfolding scan_atom_def
  by (auto split: if_splits option.splits dest!: match_number_suffix
      dest: take_eq_imp_drop [where n=4] take_eq_imp_drop [where n=5] take_eq_imp_drop [where n=3]
      take_eq_imp_drop [where n=8] take_eq_imp_drop [where n=9] simp: str_def)

lemma object_key_suffix:
  "object_key strict s = Some (k, r) \<Longrightarrow> suffix r s \<and> length r < length s"
proof -
  assume a: "object_key strict s = Some (k, r)"
  then obtain s1 s2 c where 1: "py_scanstring strict s = Ok (k, s1)" and 2: "skip_ws s1 = c # s2"
    and 3: "r = skip_ws s2"
    by (auto simp: object_key_def split: scan.splits list.splits if_splits)
  have "suffix s1 s" "length s1 < length s" using py_scanstring_suffix [OF 1] by auto
  moreover have "suffix s2 s1" "length s2 < length s1" using skip_ws_ConsD [OF 2] by auto
  moreover have "suffix r s2" "length r \<le> length s2" using 3 suffix_skip_ws length_skip_ws by auto
  ultimately show ?thesis
    by (meson suffix_order.trans less_trans le_less_trans)
qed

lemma object_next_suffix:
  "object_next s = Close r \<or> object_next s = Continue r \<Longrightarrow> suffix r s \<and> length r < length s"
  unfolding object_next_def
  by (auto split: list.splits if_splits dest!: skip_ws_ConsD)

lemma array_next_suffix:
  "array_next s = Close r \<or> array_next s = Continue r \<Longrightarrow> suffix r s \<and> length r < length s"
  unfolding array_next_def
  apply (auto split: list.splits if_splits dest!: skip_ws_ConsD)
   apply (meson suffix_skip_ws suffix_order.trans)
  apply (meson length_skip_ws le_less_trans)
  done


lemma suffix_less_trans:
  "suffix r s1 \<and> length r < length s1 \<Longrightarrow> suffix s1 s \<Longrightarrow> suffix r s \<and> length r < length s"
  by (meson suffix_length_le suffix_order.trans less_le_trans)

lemma less_suffix_trans:
  "suffix r s1 \<Longrightarrow> suffix s1 s \<and> length s1 < length s \<Longrightarrow> suffix r s \<and> length r < length s"
  by (meson suffix_length_le suffix_order.trans le_less_trans)

lemma scan_suffix_all:
  "(\<forall>strict s v r. scan_once n strict s = Ok (v, r) \<longrightarrow> suffix r s \<and> length r < length s) \<and>
   (\<forall>strict s v r. JSONObject n strict s = Ok (v, r) \<longrightarrow> suffix r s \<and> length r < length s) \<and>
   (\<forall>strict s ps v r. object_loop n strict s ps = Ok (v, r) \<longrightarrow> suffix r s \<and> length r < length s) \<and>
   (\<forall>strict s v r. JSONArray n strict s = Ok (v, r) \<longrightarrow> suffix r s \<and> length r < length s) \<and>
   (\<forall>strict s vs v r. array_loop n strict s vs = Ok (v, r) \<longrightarrow> suffix r s \<and> length r < length s)"
proof (induction n)
  case 0
  show ?case by simp
next
  case (Suc n)
  have so: "\<And>strict s v r. scan_once n strict s = Ok (v, r) \<Longrightarrow> suffix r s \<and> length r < length s"
    and jo: "\<And>strict s v r. JSONObject n strict s = Ok (v, r) \<Longrightarrow> suffix r s \<and> length r < length s"
    and ol: "\<And>strict s ps v r. object_loop n strict s ps = Ok (v, r) \<Longrightarrow> suffix r s \<and> length r < length s"
    and ja: "\<And>strict s v r. JSONArray n strict s = Ok (v, r) \<Longrightarrow> suffix r s \<and> length r < length s"
    and al: "\<And>strict s vs v r. array_loop n strict s vs = Ok (v, r) \<Longrightarrow> suffix r s \<and> length r < length s"
    using Suc.IH by simp_all
  have 1: "suffix r s \<and> length r < length s" if "scan_once (Suc n) strict s = Ok (v, r)" for strict s v r
    using that
    by (auto split: list.splits if_splits scan.splits simp: suffix_Cons
        dest!: py_scanstring_suffix jo ja scan_atom_suffix)
  have 2: "suffix r s \<and> length r < length s" if "JSONObject (Suc n) strict s = Ok (v, r)" for strict s v r
    using that
    by (auto split: list.splits if_splits dest!: skip_ws_ConsD ol intro: suffix_less_trans less_suffix_trans)
  have 3: "suffix r s \<and> length r < length s" if "object_loop (Suc n) strict s ps = Ok (v, r)" for strict s ps v r
  proof -
    from that obtain key s1 x s2 where k: "object_key strict s = Some (key, s1)"
      and v: "scan_once n strict s1 = Ok (x, s2)"
      and n: "object_next s2 = Close r \<or> (\<exists>s3. object_next s2 = Continue s3 \<and> object_loop n strict s3 (ps @ [(key, x)]) = Ok (v, r))"
      by (auto split: option.splits scan.splits after.splits)
    have a: "suffix s1 s \<and> length s1 < length s" using object_key_suffix [OF k] .
    have b: "suffix s2 s1 \<and> length s2 < length s1" using so [OF v] .
    have c: "suffix r s2 \<and> length r < length s2"
      using n object_next_suffix ol by (meson suffix_less_trans)
    show ?thesis using a b c by (meson suffix_less_trans)
  qed
  have 4: "suffix r s \<and> length r < length s" if "JSONArray (Suc n) strict s = Ok (v, r)" for strict s v r
  proof (cases "skip_ws s")
    case Nil
    with that have "array_loop n strict [] [] = Ok (v, r)" by simp
    from al [OF this] show ?thesis by simp
  next
    case (Cons c s1)
    show ?thesis
    proof (cases "c = ord CHR '']''")
      case True
      with that Cons have "r = s1" by simp
      with skip_ws_ConsD [OF Cons] show ?thesis by simp
    next
      case False
      with that Cons have "array_loop n strict (skip_ws s) [] = Ok (v, r)" by simp
      from al [OF this] suffix_skip_ws [of s] show ?thesis by (meson suffix_less_trans)
    qed
  qed
  have 5: "suffix r s \<and> length r < length s" if "array_loop (Suc n) strict s vs = Ok (v, r)" for strict s vs v r
  proof -
    from that obtain x s1 where v: "scan_once n strict s = Ok (x, s1)"
      and n: "array_next s1 = Close r \<or> (\<exists>s2. array_next s1 = Continue s2 \<and> array_loop n strict s2 (vs @ [x]) = Ok (v, r))"
      by (auto split: option.splits scan.splits after.splits)
    have b: "suffix s1 s \<and> length s1 < length s" using so [OF v] .
    have c: "suffix r s1 \<and> length r < length s1"
      using n array_next_suffix al by (meson suffix_less_trans)
    show ?thesis using b c by (meson suffix_less_trans)
  qed
  show ?case using 1 2 3 4 5 by blast
qed


lemma scan_once_suffix:
  "scan_once n strict s = Ok (v, r) \<Longrightarrow> suffix r s \<and> length r < length s"
  using scan_suffix_all [of n] by simp

lemma suffix_drop_length: "suffix r s \<Longrightarrow> drop (length s - length r) s = r"
  by (auto simp: suffix_def)

lemma raw_decode_Inr:
  "raw_decode strict s = Inr (obj, idx) \<Longrightarrow>
     0 < idx \<and> idx \<le> length s \<and> scan_once (3 * length s + 1) strict s = Ok (obj, drop idx s)"
proof -
  assume a: "raw_decode strict s = Inr (obj, idx)"
  then obtain rest where s: "scan_once (3 * length s + 1) strict s = Ok (obj, rest)"
    and i: "idx = length s - length rest"
    unfolding raw_decode_def by (auto split: scan.splits prod.splits simp del: scan_once.simps)
  from scan_once_suffix [OF s] have "suffix rest s" "length rest < length s" by auto
  with s i show ?thesis by (simp add: suffix_drop_length del: scan_once.simps)
qed

lemma raw_decode_Inl: "raw_decode strict s = Inl e \<Longrightarrow> e = JSONDecodeError"
  unfolding raw_decode_def by (auto split: scan.splits)

lemma scan_fuel_mono_all:
  "(\<forall>m strict s x. n \<le> m \<longrightarrow> scan_once n strict s = Ok x \<longrightarrow> scan_once m strict s = Ok x) \<and>
   (\<forall>m strict s x. n \<le> m \<longrightarrow> JSONObject n strict s = Ok x \<longrightarrow> JSONObject m strict s = Ok x) \<and>
   (\<forall>m strict s ps x. n \<le> m \<longrightarrow> object_loop n strict s ps = Ok x \<longrightarrow> object_loop m strict s ps = Ok x) \<and>
   (\<forall>m strict s x. n \<le> m \<longrightarrow> JSONArray n strict s = Ok x \<longrightarrow> JSONArray m strict s = Ok x) \<and>
   (\<forall>m strict s vs x. n \<le> m \<longrightarrow> array_loop n strict s vs = Ok x \<longrightarrow> array_loop m strict s vs = Ok x)"
proof (induction n)
  case 0
  show ?case by simp
next
  case (Suc n)
  note so = Suc.IH [THEN conjunct1, rule_format, rotated]
  note jo = Suc.IH [THEN conjunct2, THEN conjunct1, rule_format, rotated]
  note ol = Suc.IH [THEN conjunct2, THEN conjunct2, THEN conjunct1, rule_format, rotated]
  note ja = Suc.IH [THEN conjunct2, THEN conjunct2, THEN conjunct2, THEN conjunct1, rule_format, rotated]
  note al = Suc.IH [THEN conjunct2, THEN conjunct2, THEN conjunct2, THEN conjunct2, rule_format, rotated]
  have 1: "scan_once (Suc m) strict s = Ok x" if "scan_once (Suc n) strict s = Ok x" "n \<le> m" for m strict s x
    using that
    by (auto split: list.splits if_splits scan.splits intro: jo [where m=m] ja [where m=m])
  have 2: "JSONObject (Suc m) strict s = Ok x" if "JSONObject (Suc n) strict s = Ok x" "n \<le> m" for m strict s x
    using that
    by (auto split: list.splits if_splits intro: ol [where m=m])
  have 3: "object_loop (Suc m) strict s ps = Ok x" if "object_loop (Suc n) strict s ps = Ok x" "n \<le> m" for m strict s ps x
  proof -
    from that obtain key s1 v s2 where k: "object_key strict s = Some (key, s1)"
      and v: "scan_once n strict s1 = Ok (v, s2)"
      by (auto split: option.splits scan.splits)
    from so [OF v that(2)] have v': "scan_once m strict s1 = Ok (v, s2)" .
    from that k v v' show ?thesis
      by (auto split: after.splits intro: ol [where m=m])
  qed
  have 4: "JSONArray (Suc m) strict s = Ok x" if "JSONArray (Suc n) strict s = Ok x" "n \<le> m" for m strict s x
    using that
    by (auto split: list.splits if_splits intro: al [where m=m])
  have 5: "array_loop (Suc m) strict s vs = Ok x" if "array_loop (Suc n) strict s vs = Ok x" "n \<le> m" for m strict s vs x
  proof -
    from that obtain v s1 where v: "scan_once n strict s = Ok (v, s1)"
      by (auto split: scan.splits)
    from so [OF v that(2)] have v': "scan_once m strict s = Ok (v, s1)" .
    from that v v' show ?thesis
      by (auto split: after.splits intro: al [where m=m])
  qed
  show ?case
  proof (intro conjI allI impI)
    fix m strict s x assume "Suc n \<le> m" "scan_once (Suc n) strict s = Ok x"
    then show "scan_once m strict s = Ok x"
      using 1 [of strict s x "m - 1"] by (cases m) (simp_all del: scan_once.simps)
  next
    fix m strict s x assume "Suc n \<le> m" "JSONObject (Suc n) strict s = Ok x"
    then show "JSONObject m strict s = Ok x"
      using 2 [of strict s x "m - 1"] by (cases m) (simp_all del: JSONObject.simps)
  next
    fix m strict s ps x assume "Suc n \<le> m" "object_loop (Suc n) strict s ps = Ok x"
    then show "object_loop m strict s ps = Ok x"
      using 3 [of strict s ps x "m - 1"] by (cases m) (simp_all del: object_loop.simps)
  next
    fix m strict s x assume "Suc n \<le> m" "JSONArray (Suc n) strict s = Ok x"
    then show "JSONArray m strict s = Ok x"
      using 4 [of strict s x "m - 1"] by (cases m) (simp_all del: JSONArray.simps)
  next
    fix m strict s vs x assume "Suc n \<le> m" "array_loop (Suc n) strict s vs = Ok x"
    then show "array_loop m strict s vs = Ok x"
      using 5 [of strict s vs x "m - 1"] by (cases m) (simp_all del: array_loop.simps)
  qed
qed

lemmas scan_once_fuel_mono = scan_fuel_mono_all [THEN conjunct1, rule_format, rotated]

lemma append_char_fuel: "append_char c x = OutOfFuel \<longleftrightarrow> x = OutOfFuel"
  by (auto simp: append_char_def split: scan.splits)

lemma py_scanstring_fuel: "py_scanstring strict s \<noteq> OutOfFuel"
proof (induction "length s" arbitrary: s rule: less_induct)
  case less
  note IH = less.hyps
  show ?case
  proof (cases s)
    case Nil
    then show ?thesis by simp
  next
    case (Cons c cs)
    then show ?thesis
      by (simp split: list.splits option.splits add: append_char_fuel IH)
  qed
qed

lemma scan_atom_fuel: "scan_atom s \<noteq> OutOfFuel"
  by (auto simp: scan_atom_def split: option.splits)

lemma scan_fuel_enough_all:
  "(\<forall>strict s. 3 * length s + 1 \<le> n \<longrightarrow> scan_once n strict s \<noteq> OutOfFuel) \<and>
   (\<forall>strict s. 3 * length s + 1 \<le> n \<longrightarrow> JSONObject n strict s \<noteq> OutOfFuel) \<and>
   (\<forall>strict s ps. 3 * length s + 1 \<le> n \<longrightarrow> object_loop n strict s ps \<noteq> OutOfFuel) \<and>
   (\<forall>strict s. 3 * length s + 3 \<le> n \<longrightarrow> JSONArray n strict s \<noteq> OutOfFuel) \<and>
   (\<forall>strict s vs. 3 * length s + 2 \<le> n \<longrightarrow> array_loop n strict s vs \<noteq> OutOfFuel)"
proof (induction n)
  case 0
  show ?case by simp
next
  case (Suc n)
  note so = Suc.IH [THEN conjunct1, rule_format]
  note jo = Suc.IH [THEN conjunct2, THEN conjunct1, rule_format]
  note ol = Suc.IH [THEN conjunct2, THEN conjunct2, THEN conjunct1, rule_format]
  note ja = Suc.IH [THEN conjunct2, THEN conjunct2, THEN conjunct2, THEN conjunct1, rule_format]
  note al = Suc.IH [THEN conjunct2, THEN conjunct2, THEN conjunct2, THEN conjunct2, rule_format]
  have 1: "scan_once (Suc n) strict s \<noteq> OutOfFuel" if "3 * length s + 1 \<le> Suc n" for strict s
    using that py_scanstring_fuel scan_atom_fuel
    by (auto split: list.splits scan.splits simp: jo ja)
  have 2: "JSONObject (Suc n) strict s \<noteq> OutOfFuel" if "3 * length s + 1 \<le> Suc n" for strict s
    using that
    by (auto split: list.splits dest!: skip_ws_ConsD simp: ol)
  have 3: "object_loop (Suc n) strict s ps \<noteq> OutOfFuel" if "3 * length s + 1 \<le> Suc n" for strict s ps
  proof (cases "object_key strict s")
    case None
    then show ?thesis by simp
  next
    case (Some a)
    obtain key s1 where a: "a = (key, s1)" by (cases a)
    from object_key_suffix Some a have l1: "length s1 < length s" by blast
    with that have "scan_once n strict s1 \<noteq> OutOfFuel" by (intro so) simp
    moreover have "object_loop n strict s3 qs \<noteq> OutOfFuel"
      if "scan_once n strict s1 = Ok (v, s2)" "object_next s2 = Continue s3" for v s2 s3 qs
    proof -
      from scan_once_suffix [OF that(1)] object_next_suffix [of s2 s3] that(2) l1
      have "length s3 < length s" by simp
      with \<open>3 * length s + 1 \<le> Suc n\<close> show ?thesis by (intro ol) simp
    qed
    ultimately show ?thesis using Some a
      by (auto split: scan.splits after.splits)
  qed
  have 4: "JSONArray (Suc n) strict s \<noteq> OutOfFuel" if "3 * length s + 3 \<le> Suc n" for strict s
  proof -
    have "array_loop n strict [] [] \<noteq> OutOfFuel" using that by (intro al) simp
    moreover have "array_loop n strict (skip_ws s) [] \<noteq> OutOfFuel"
      using that length_skip_ws [of s] by (intro al) simp
    ultimately show ?thesis by (auto split: list.splits)
  qed
  have 5: "array_loop (Suc n) strict s vs \<noteq> OutOfFuel" if "3 * length s + 2 \<le> Suc n" for strict s vs
  proof -
    have "scan_once n strict s \<noteq> OutOfFuel" using that by (intro so) simp
    moreover have "array_loop n strict s2 ws \<noteq> OutOfFuel"
      if "scan_once n strict s = Ok (v, s1)" "array_next s1 = Continue s2" for v s1 s2 ws
    proof -
      from scan_once_suffix [OF that(1)] array_next_suffix [of s1 s2] that(2)
      have "length s2 < length s" by simp
      with \<open>3 * length s + 2 \<le> Suc n\<close> show ?thesis by (intro al) simp
    qed
    ultimately show ?thesis
      by (auto split: scan.splits after.splits)
  qed
  show ?case using 1 2 3 4 5 by (intro conjI allI impI)
qed

lemmas scan_once_fuel_enough = scan_fuel_enough_all [THEN conjunct1, rule_format]

lemma raw_decode_fuel: "scan_once (3 * length s + 1) strict s \<noteq> OutOfFuel"
  by (rule scan_once_fuel_enough) simp


lemma dropWhile_append_nonempty:
  "dropWhile P xs \<noteq> [] \<Longrightarrow> dropWhile P (xs @ ys) = dropWhile P xs @ ys \<and> takeWhile P (xs @ ys) = takeWhile P xs"
proof -
  assume a: "dropWhile P xs \<noteq> []"
  then have "hd (dropWhile P xs) \<in> set xs" "\<not> P (hd (dropWhile P xs))"
    using hd_dropWhile [of P xs] set_dropWhileD [of "hd (dropWhile P xs)" P xs] by auto
  then show ?thesis by (auto simp: dropWhile_append1 takeWhile_append1)
qed

lemma skip_ws_append: "skip_ws s = c # r \<Longrightarrow> skip_ws (s @ t) = c # r @ t"
  using dropWhile_append_nonempty [of is_ws s t] by (simp add: skip_ws_def)

lemma decode_uXXXX_append: "decode_uXXXX s = Some u \<Longrightarrow> decode_uXXXX (s @ t) = Some u"
  by (auto simp: decode_uXXXX_def split: if_splits)

lemma decode_uXXXX_length: "decode_uXXXX s = Some u \<Longrightarrow> 4 \<le> length s"
  by (auto simp: decode_uXXXX_def split: if_splits)

lemma py_scanstring_take2:
  "py_scanstring strict s = Ok (v, r) \<Longrightarrow> take 2 s \<noteq> [0x5C, 0x75] \<Longrightarrow> take 2 (s @ t) \<noteq> [0x5C, 0x75]"
  by (cases s; cases "tl s") (auto split: if_splits simp: append_char_Ok)

lemma py_scanstring_append:
  "py_scanstring strict s = Ok (v, r) \<Longrightarrow> py_scanstring strict (s @ t) = Ok (v, r @ t)"
proof (induction "length s" arbitrary: s v r rule: less_induct)
  case less
  note IH = less.hyps
  show ?case
  proof (cases s)
    case Nil
    with less.prems show ?thesis by simp
  next
    case (Cons c cs)
    show ?thesis
    proof (cases "c = 0x5C")
      case False
      show ?thesis
      proof (cases "c = 0x22")
        case True
        with less.prems Cons show ?thesis by simp
      next
        case q: False
        from less.prems Cons False q obtain v' where
          rec: "py_scanstring strict cs = Ok (v', r)" "v = c # v'" and ok: "\<not> (c < 0x20 \<and> strict)"
          by (auto split: if_splits simp: append_char_Ok)
        have "py_scanstring strict (cs @ t) = Ok (v', r @ t)"
          using rec Cons by (intro IH) auto
        with rec ok Cons False q show ?thesis
          by (auto simp: append_char_Ok)
      qed
    next
      case True
      note c = this
      show ?thesis
      proof (cases cs)
        case Nil
        with less.prems Cons c show ?thesis by simp
      next
        case (Cons esc r0)
        note cs = this
        show ?thesis
        proof (cases "esc = ord CHR ''u''")
          case False
          from less.prems \<open>s = c # cs\<close> c cs False obtain ch v' where
            rec: "BACKSLASH esc = Some ch" "py_scanstring strict r0 = Ok (v', r)" "v = ch # v'"
            by (auto split: option.splits simp: append_char_Ok)
          have "py_scanstring strict (r0 @ t) = Ok (v', r @ t)"
            using rec \<open>s = c # cs\<close> cs by (intro IH) auto
          with rec \<open>s = c # cs\<close> c cs False show ?thesis
            by (auto simp: append_char_Ok)
        next
          case True
          note esc = this
          from less.prems \<open>s = c # cs\<close> c cs esc obtain uni where u: "decode_uXXXX r0 = Some uni"
            by (auto split: option.splits)
          note l = decode_uXXXX_length [OF u]
          note u' = decode_uXXXX_append [OF u, of t]
          show ?thesis
          proof (cases "0xD800 \<le> uni \<and> uni \<le> 0xDBFF \<and> take 2 (drop 4 r0) = [0x5C, ord CHR ''u'']")
            case True
            note hi = this
            then have l2: "6 \<le> length r0" by (cases "drop 4 r0"; cases "tl (drop 4 r0)") (auto simp: drop_eq_Nil dest: arg_cong [where f=length])
            from less.prems \<open>s = c # cs\<close> c cs esc u hi obtain uni2 where u2: "decode_uXXXX (drop 6 r0) = Some uni2"
              by (auto split: option.splits)
            note l3 = decode_uXXXX_length [OF u2]
            note u2' = decode_uXXXX_append [OF u2, of t]
            define k :: nat where "k = (if 0xDC00 \<le> uni2 \<and> uni2 \<le> 0xDFFF then 10 else 4)"
            define ch where "ch = (if 0xDC00 \<le> uni2 \<and> uni2 \<le> 0xDFFF
               then 0x10000 + (push_bit 10 (uni - 0xD800) OR (uni2 - 0xDC00)) else uni)"
            from less.prems \<open>s = c # cs\<close> c cs esc u hi u2 obtain v' where
              rec: "py_scanstring strict (drop k r0) = Ok (v', r)" "v = ch # v'"
              by (auto split: if_splits simp: append_char_Ok k_def ch_def)
            have kl: "k \<le> length r0" using l2 l3 by (auto simp: k_def)
            have "py_scanstring strict (drop k r0 @ t) = Ok (v', r @ t)"
              using rec \<open>s = c # cs\<close> cs by (intro IH) auto
            then have "py_scanstring strict (drop k (r0 @ t)) = Ok (v', r @ t)"
              using kl by simp
            with rec \<open>s = c # cs\<close> c cs esc u u' hi l l2 l3 u2 u2' show ?thesis
              by (auto simp: append_char_Ok k_def ch_def)
          next
            case False
            note lo = this
            from less.prems \<open>s = c # cs\<close> c cs esc u lo
            have rec: "\<exists>v'. py_scanstring strict (drop 4 r0) = Ok (v', r) \<and> v = uni # v'"
              by (auto simp: append_char_Ok)
            then obtain v' where rec': "py_scanstring strict (drop 4 r0) = Ok (v', r)" "v = uni # v'" by blast
            have "py_scanstring strict (drop 4 r0 @ t) = Ok (v', r @ t)"
              using rec' \<open>s = c # cs\<close> cs by (intro IH) auto
            then have rec2: "py_scanstring strict (drop 4 (r0 @ t)) = Ok (v', r @ t)"
              using l by simp
            show ?thesis
            proof (cases "0xD800 \<le> uni \<and> uni \<le> 0xDBFF")
              case True
              with lo have "take 2 (drop 4 r0) \<noteq> [0x5C, 0x75]" by simp
              from py_scanstring_take2 [OF rec'(1) this, of t] l
              have "take 2 (drop 4 (r0 @ t)) \<noteq> [0x5C, 0x75]" by simp
              with \<open>s = c # cs\<close> c cs esc u' rec2 rec'(2) show ?thesis
                by (simp add: append_char_Ok del: take_append drop_append)
            next
              case False
              with \<open>s = c # cs\<close> c cs esc u' rec2 rec'(2) show ?thesis
                by (auto simp: append_char_Ok simp del: take_append drop_append)
            qed
          qed
        qed
      qed
    qed
  qed
qed

lemma span_digits_append:
  "dropWhile is_digit xs \<noteq> [] \<Longrightarrow>
     dropWhile is_digit (xs @ ys) = dropWhile is_digit xs @ ys \<and>
     takeWhile is_digit (xs @ ys) = takeWhile is_digit xs"
  by (rule dropWhile_append_nonempty)

lemma match_integer_append:
  "match_integer s = Some (i, r) \<Longrightarrow> r \<noteq> [] \<Longrightarrow> match_integer (s @ t) = Some (i, r @ t)"
  by (cases s; cases "tl s")
    (auto simp: match_integer_def span_digits_append split: if_splits)

lemma match_frac_append:
  "match_frac s = (f, r) \<Longrightarrow> r \<noteq> [] \<Longrightarrow> hd r \<noteq> ord CHR ''.'' \<Longrightarrow> match_frac (s @ t) = (f, r @ t)"
  by (cases s)
    (auto simp: match_frac_def span_digits_append split: if_splits)

lemma match_exp_append:
  "match_exp s = (e, r) \<Longrightarrow> r \<noteq> [] \<Longrightarrow> \<not> number_char (hd r) \<Longrightarrow> match_exp (s @ t) = (e, r @ t)"
  by (cases s; cases "tl s")
    (auto simp: match_exp_def span_digits_append number_char_def split: if_splits)

lemma match_exp_hd:
  "match_exp s = (e, r) \<Longrightarrow> r \<noteq> [] \<Longrightarrow> \<not> number_char (hd r) \<Longrightarrow> s \<noteq> [] \<and> hd s \<noteq> ord CHR ''.''"
  by (auto simp: match_exp_def number_char_def split: list.splits if_splits prod.splits)

lemma match_number_append:
  assumes "match_number s = Some (i, f, e, r)" "r \<noteq> []" "\<not> number_char (hd r)"
  shows "match_number (s @ t) = Some (i, f, e, r @ t)"
proof -
  from assms(1) obtain r0 r1 where i: "match_integer s = Some (i, r0)" and f: "match_frac r0 = (f, r1)"
    and e: "match_exp r1 = (e, r)"
    by (auto simp: match_number_def split: option.splits prod.splits)
  from match_exp_hd [OF e assms(2,3)] have r1: "r1 \<noteq> []" "hd r1 \<noteq> ord CHR ''.''" by auto
  from match_frac_suffix [OF f] r1 have r0: "r0 \<noteq> []" by (auto simp: suffix_def)
  show ?thesis
    using match_integer_append [OF i r0, of t] match_frac_append [OF f r1, of t]
      match_exp_append [OF e assms(2,3), of t]
    by (simp add: match_number_def)
qed

lemma match_integer_hd:
  "match_integer s = Some (i, r) \<Longrightarrow> s \<noteq> [] \<and> (hd s = ord CHR ''-'' \<or> is_digit (hd s))"
  by (auto simp: match_integer_def is_digit_def split: list.splits if_splits)

lemma match_number_hd:
  "match_number s = Some x \<Longrightarrow> s \<noteq> [] \<and> (hd s = ord CHR ''-'' \<or> is_digit (hd s))"
  by (cases x) (auto simp: match_number_def split: option.splits prod.splits dest!: match_integer_hd)

lemma match_number_None_append:
  "match_number s = None \<Longrightarrow> 2 \<le> length s \<Longrightarrow> match_number (s @ t) = None"
  by (cases s; cases "tl s")
    (auto simp: match_number_def match_integer_def split: option.splits prod.splits if_splits)

lemma match_number_None_hd:
  "s \<noteq> [] \<Longrightarrow> hd s \<noteq> ord CHR ''-'' \<Longrightarrow> \<not> is_digit (hd s) \<Longrightarrow> match_number s = None"
  by (cases s) (auto simp: match_number_def match_integer_def is_digit_def split: option.splits prod.splits if_splits)

lemma take_lit:
  "take n s = x \<Longrightarrow> length x = n \<Longrightarrow> take n (s @ t) = x \<and> drop n (s @ t) = drop n s @ t"
  by (cases "n \<le> length s") auto

lemma take_lit_hd: "s \<noteq> [] \<Longrightarrow> x \<noteq> [] \<Longrightarrow> hd s \<noteq> hd x \<Longrightarrow> take n (s @ t) \<noteq> x"
  by (cases s; cases n) auto

lemma lit_hd_neq: "s \<noteq> [] \<Longrightarrow> hd s \<noteq> c \<Longrightarrow> take n (s @ t) \<noteq> c # x"
  by (cases s; cases n) auto

lemma take_lit_len:
  "take m s = y \<Longrightarrow> length y = m \<Longrightarrow> n \<le> m \<Longrightarrow> take n s \<noteq> x \<Longrightarrow> take n (s @ t) \<noteq> x"
  by (cases "m \<le> length s") auto

lemma str_simps:
  "str ''null'' = [110, 117, 108, 108]"
  "str ''true'' = [116, 114, 117, 101]"
  "str ''false'' = [102, 97, 108, 115, 101]"
  "str ''NaN'' = [78, 97, 78]"
  "str ''Infinity'' = [73, 110, 102, 105, 110, 105, 116, 121]"
  "str ''-Infinity'' = [45, 73, 110, 102, 105, 110, 105, 116, 121]"
  by (simp_all add: str_def)

lemma scan_atom_append:
  assumes ok: "scan_atom s = Ok (v, r)" and r: "r \<noteq> []" "\<not> number_char (hd r)"
  shows "scan_atom (s @ t) = Ok (v, r @ t)"
proof (cases "take 4 s = str ''null''")
  case True
  from take_lit [OF True, of t] ok True show ?thesis
    by (simp add: scan_atom_def str_simps)
next
  case n1: False
  show ?thesis
  proof (cases "take 4 s = str ''true''")
    case True
    from take_lit [OF True, of t] ok True n1 show ?thesis
      by (simp add: scan_atom_def str_simps)
  next
    case n2: False
    show ?thesis
    proof (cases "take 5 s = str ''false''")
      case True
      from take_lit [OF True, of t] take_lit_len [OF True _ _ n1, of t] take_lit_len [OF True _ _ n2, of t]
        ok True n1 n2 show ?thesis
        by (simp add: scan_atom_def str_simps)
    next
      case n3: False
      show ?thesis
      proof (cases "match_number s")
        case (Some x)
        obtain i f e r' where x: "x = (i, f, e, r')" by (cases x) auto
        from ok n1 n2 n3 Some x have r': "r' = r" and v: "v = (if f \<noteq> [] \<or> e \<noteq> [] then PyFloat (i @ f @ e) else PyInt (parse_int i))"
          by (auto simp: scan_atom_def split: if_splits)
        from match_number_hd [OF Some] have h: "s \<noteq> []" "hd s = 45 \<or> is_digit (hd s)" by auto
        then have "take 4 (s @ t) \<noteq> str ''null''" "take 4 (s @ t) \<noteq> str ''true''" "take 5 (s @ t) \<noteq> str ''false''"
          by (auto simp: str_simps is_digit_def lit_hd_neq simp del: take_append)
        moreover have "match_number (s @ t) = Some (i, f, e, r @ t)"
          using match_number_append [OF _ r, of s i f e t] Some x r' by simp
        ultimately show ?thesis using v by (simp add: scan_atom_def)
      next
        case None
        show ?thesis
        proof (cases "take 3 s = str ''NaN''")
          case True
          then have h: "s \<noteq> []" "hd s = 78" by (cases s; auto simp: str_simps)+
          then have "take 4 (s @ t) \<noteq> str ''null''" "take 4 (s @ t) \<noteq> str ''true''" "take 5 (s @ t) \<noteq> str ''false''"
            by (auto simp: str_simps lit_hd_neq simp del: take_append)
          moreover have "match_number (s @ t) = None"
            using h by (intro match_number_None_hd) (auto simp: is_digit_def)
          ultimately show ?thesis
            using take_lit [OF True, of t] ok True n1 n2 n3 None
            by (simp add: scan_atom_def str_simps)
        next
          case n4: False
          show ?thesis
          proof (cases "take 8 s = str ''Infinity''")
            case True
            then have h: "s \<noteq> []" "hd s = 73" by (cases s; auto simp: str_simps)+
            then have "take 4 (s @ t) \<noteq> str ''null''" "take 4 (s @ t) \<noteq> str ''true''" "take 5 (s @ t) \<noteq> str ''false''"
              "take 3 (s @ t) \<noteq> str ''NaN''"
              by (auto simp: str_simps lit_hd_neq simp del: take_append)
            moreover have "match_number (s @ t) = None"
              using h by (intro match_number_None_hd) (auto simp: is_digit_def)
            ultimately show ?thesis
              using take_lit [OF True, of t] ok True n1 n2 n3 n4 None
              by (simp add: scan_atom_def str_simps)
          next
            case n5: False
            with ok n1 n2 n3 n4 None have True: "take 9 s = str ''-Infinity''"
              by (auto simp: scan_atom_def split: if_splits)
            then have h: "s \<noteq> []" "hd s = 45" "2 \<le> length s"
              by (cases s; auto simp: str_simps dest: arg_cong [where f=length])+
            then have "take 4 (s @ t) \<noteq> str ''null''" "take 4 (s @ t) \<noteq> str ''true''" "take 5 (s @ t) \<noteq> str ''false''"
              "take 3 (s @ t) \<noteq> str ''NaN''" "take 8 (s @ t) \<noteq> str ''Infinity''"
              by (auto simp: str_simps lit_hd_neq simp del: take_append)
            moreover have "match_number (s @ t) = None"
              using None h by (intro match_number_None_append)
            ultimately show ?thesis
              using take_lit [OF True, of t] ok True n1 n2 n3 n4 n5 None
              by (simp add: scan_atom_def str_simps)
          qed
        qed
      qed
    qed
  qed
qed

lemma skip_ws_append_nonempty: "skip_ws s \<noteq> [] \<Longrightarrow> skip_ws (s @ t) = skip_ws s @ t"
  using dropWhile_append_nonempty [of is_ws s t] by (simp add: skip_ws_def)

lemma object_key_append:
  assumes "object_key strict s = Some (k, r)" "r \<noteq> []"
  shows "object_key strict (s @ t) = Some (k, r @ t)"
proof -
  from assms(1) obtain s1 s2 where 1: "py_scanstring strict s = Ok (k, s1)"
    and 2: "skip_ws s1 = ord CHR '':'' # s2" and 3: "r = skip_ws s2"
    by (auto simp: object_key_def split: scan.splits list.splits if_splits)
  from skip_ws_append [OF 2, of t] skip_ws_append_nonempty [of s2 t] assms(2) 3
    py_scanstring_append [OF 1, of t]
  show ?thesis by (simp add: object_key_def)
qed

lemma object_next_append:
  "object_next s = Close r \<Longrightarrow> object_next (s @ t) = Close (r @ t)"
  "object_next s = Continue r \<Longrightarrow> object_next (s @ t) = Continue (r @ t)"
  by (auto simp: object_next_def skip_ws_append split: list.splits if_splits)

lemma array_next_append:
  "array_next s = Close r \<Longrightarrow> array_next (s @ t) = Close (r @ t)"
  "array_next s = Continue r \<Longrightarrow> r \<noteq> [] \<Longrightarrow> array_next (s @ t) = Continue (r @ t)"
  by (auto simp: array_next_def skip_ws_append skip_ws_append_nonempty split: list.splits if_splits)

lemma skip_ws_hd: "skip_ws s = c # r \<Longrightarrow> s \<noteq> [] \<and> (hd s = c \<or> is_ws (hd s))"
  by (cases s) (auto simp: skip_ws_def split: if_splits)

lemma object_next_hd: "object_next s \<noteq> Bad \<Longrightarrow> s \<noteq> [] \<and> \<not> number_char (hd s)"
  by (auto simp: object_next_def number_char_def is_digit_def is_ws_def split: list.splits if_splits
      dest!: skip_ws_hd)

lemma array_next_hd: "array_next s \<noteq> Bad \<Longrightarrow> s \<noteq> [] \<and> \<not> number_char (hd s)"
  by (auto simp: array_next_def number_char_def is_digit_def is_ws_def split: list.splits if_splits
      dest!: skip_ws_hd)


lemma scan_append_all:
  "(\<forall>strict s v r. scan_once n strict s = Ok (v, r) \<longrightarrow> stable_end s r \<longrightarrow> scan_once n strict (s @ t) = Ok (v, r @ t)) \<and>
   (\<forall>strict s v r. JSONObject n strict s = Ok (v, r) \<longrightarrow> JSONObject n strict (s @ t) = Ok (v, r @ t)) \<and>
   (\<forall>strict s ps v r. object_loop n strict s ps = Ok (v, r) \<longrightarrow> object_loop n strict (s @ t) ps = Ok (v, r @ t)) \<and>
   (\<forall>strict s v r. JSONArray n strict s = Ok (v, r) \<longrightarrow> JSONArray n strict (s @ t) = Ok (v, r @ t)) \<and>
   (\<forall>strict s vs v r. array_loop n strict s vs = Ok (v, r) \<longrightarrow> array_loop n strict (s @ t) vs = Ok (v, r @ t))"
proof (induction n)
  case 0
  show ?case by simp
next
  case (Suc n)
  note so = Suc.IH [THEN conjunct1, rule_format]
  note jo = Suc.IH [THEN conjunct2, THEN conjunct1, rule_format]
  note ol = Suc.IH [THEN conjunct2, THEN conjunct2, THEN conjunct1, rule_format]
  note ja = Suc.IH [THEN conjunct2, THEN conjunct2, THEN conjunct2, THEN conjunct1, rule_format]
  note al = Suc.IH [THEN conjunct2, THEN conjunct2, THEN conjunct2, THEN conjunct2, rule_format]
  have 1: "scan_once (Suc n) strict (s @ t) = Ok (v, r @ t)"
    if a: "scan_once (Suc n) strict s = Ok (v, r)" and st: "stable_end s r" for strict s v r
  proof (cases s)
    case Nil
    with a show ?thesis by simp
  next
    case (Cons c cs)
    consider (q) "c = 0x22" | (o) "c = ord CHR ''{''" | (b) "c = ord CHR ''[''"
      | (x) "c \<noteq> 0x22" "c \<noteq> ord CHR ''{''" "c \<noteq> ord CHR ''[''" by blast
    then show ?thesis
    proof cases
      case q
      with a Cons obtain x where "py_scanstring strict cs = Ok (x, r)" "v = PyStr x"
        by (auto split: scan.splits)
      with py_scanstring_append [OF this(1), of t] q Cons show ?thesis by simp
    next
      case o
      with a Cons have "JSONObject n strict cs = Ok (v, r)" by simp
      from jo [OF this] o Cons show ?thesis by simp
    next
      case b
      with a Cons have "JSONArray n strict cs = Ok (v, r)" by simp
      from ja [OF this] b Cons show ?thesis by simp
    next
      case x
      with a Cons have "scan_atom s = Ok (v, r)" by simp
      moreover from st x Cons have "r \<noteq> []" "\<not> number_char (hd r)" by (auto simp: stable_end_def)
      ultimately have "scan_atom (s @ t) = Ok (v, r @ t)" by (rule scan_atom_append)
      with x Cons show ?thesis by simp
    qed
  qed
  have 2: "JSONObject (Suc n) strict (s @ t) = Ok (v, r @ t)"
    if a: "JSONObject (Suc n) strict s = Ok (v, r)" for strict s v r
  proof (cases "skip_ws s")
    case Nil
    with a show ?thesis by simp
  next
    case (Cons c s1)
    note sk = skip_ws_append [OF Cons, of t]
    show ?thesis
    proof (cases "c = ord CHR ''}''")
      case True
      with a Cons sk show ?thesis by simp
    next
      case False
      with a Cons have c: "c = 0x22" and "object_loop n strict s1 [] = Ok (v, r)"
        by (auto split: if_splits)
      from ol [OF this(2)] c sk show ?thesis by simp
    qed
  qed
  have 3: "object_loop (Suc n) strict (s @ t) ps = Ok (v, r @ t)"
    if a: "object_loop (Suc n) strict s ps = Ok (v, r)" for strict s ps v r
  proof -
    from a obtain key s1 x s2 where k: "object_key strict s = Some (key, s1)"
      and v: "scan_once n strict s1 = Ok (x, s2)"
      and nx: "object_next s2 = Close r \<and> v = PyDict (dict (ps @ [(key, x)]))
          \<or> (\<exists>s3. object_next s2 = Continue s3 \<and> object_loop n strict s3 (ps @ [(key, x)]) = Ok (v, r))"
      by (auto split: option.splits scan.splits after.splits)
    from scan_once_suffix [OF v] have "s1 \<noteq> []" by auto
    note k' = object_key_append [OF k this, of t]
    from nx have "object_next s2 \<noteq> Bad" by auto
    from object_next_hd [OF this] have "stable_end s1 s2" by (simp add: stable_end_def)
    note v' = so [OF v this]
    from nx show ?thesis
    proof
      assume "object_next s2 = Close r \<and> v = PyDict (dict (ps @ [(key, x)]))"
      with object_next_append(1) [of s2 r t] k' v' show ?thesis by simp
    next
      assume "\<exists>s3. object_next s2 = Continue s3 \<and> object_loop n strict s3 (ps @ [(key, x)]) = Ok (v, r)"
      then obtain s3 where c: "object_next s2 = Continue s3"
        and l: "object_loop n strict s3 (ps @ [(key, x)]) = Ok (v, r)" by blast
      from object_next_append(2) [OF c, of t] ol [OF l] k' v' show ?thesis by simp
    qed
  qed
  have 4: "JSONArray (Suc n) strict (s @ t) = Ok (v, r @ t)"
    if a: "JSONArray (Suc n) strict s = Ok (v, r)" for strict s v r
  proof (cases "skip_ws s")
    case Nil
    with a have "array_loop n strict [] [] = Ok (v, r)" by simp
    from scan_suffix_all [of n, THEN conjunct2, THEN conjunct2, THEN conjunct2, THEN conjunct2, rule_format, OF this]
    show ?thesis by simp
  next
    case (Cons c s1)
    note sk = skip_ws_append [OF Cons, of t]
    show ?thesis
    proof (cases "c = ord CHR '']''")
      case True
      with a Cons sk show ?thesis by simp
    next
      case False
      with a Cons have "array_loop n strict (skip_ws s) [] = Ok (v, r)" by simp
      from al [OF this] False Cons sk show ?thesis by simp
    qed
  qed
  have 5: "array_loop (Suc n) strict (s @ t) vs = Ok (v, r @ t)"
    if a: "array_loop (Suc n) strict s vs = Ok (v, r)" for strict s vs v r
  proof -
    from a obtain x s1 where v: "scan_once n strict s = Ok (x, s1)"
      and nx: "array_next s1 = Close r \<and> v = PyList (vs @ [x])
          \<or> (\<exists>s2. array_next s1 = Continue s2 \<and> array_loop n strict s2 (vs @ [x]) = Ok (v, r))"
      by (auto split: scan.splits after.splits)
    from nx have "array_next s1 \<noteq> Bad" by auto
    from array_next_hd [OF this] have "stable_end s s1" by (simp add: stable_end_def)
    note v' = so [OF v this]
    from nx show ?thesis
    proof
      assume "array_next s1 = Close r \<and> v = PyList (vs @ [x])"
      with array_next_append(1) [of s1 r t] v' show ?thesis by simp
    next
      assume "\<exists>s2. array_next s1 = Continue s2 \<and> array_loop n strict s2 (vs @ [x]) = Ok (v, r)"
      then obtain s2 where c: "array_next s1 = Continue s2"
        and l: "array_loop n strict s2 (vs @ [x]) = Ok (v, r)" by blast
      from scan_suffix_all [of n, THEN conjunct2, THEN conjunct2, THEN conjunct2, THEN conjunct2, rule_format, OF l]
      have "s2 \<noteq> []" by auto
      from array_next_append(2) [OF c this, of t] al [OF l] v' show ?thesis by simp
    qed
  qed
  show ?case using 1 2 3 4 5 by (intro conjI allI impI)
qed

lemmas scan_once_append = scan_append_all [THEN conjunct1, rule_format]

lemma raw_decode_append:
  assumes "raw_decode strict s = Inr (obj, idx)" "stable_end s (drop idx s)"
  shows "raw_decode strict (s @ t) = Inr (obj, idx)"
proof -
  from raw_decode_Inr [OF assms(1)] have i: "0 < idx" "idx \<le> length s"
    and s: "scan_once (3 * length s + 1) strict s = Ok (obj, drop idx s)" by auto
  from scan_once_append [OF s assms(2), of t]
  have "scan_once (3 * length s + 1) strict (s @ t) = Ok (obj, drop idx s @ t)" .
  then have "scan_once (3 * length (s @ t) + 1) strict (s @ t) = Ok (obj, drop idx s @ t)"
    by (rule scan_once_fuel_mono) simp
  then show ?thesis using i by (simp add: raw_decode_def del: scan_once.simps)
qed

section \<open>The generator \<^verbatim>\<open>parse_json_stream\<close>\<close>

text \<open>
  \<^verbatim>\<open>buffer.find("{")\<close>: the index of the first occurrence of the character, or \<open>-1\<close>
  when there is none.
\<close>

definition py_find :: "pystr \<Rightarrow> codepoint \<Rightarrow> int" where
  "py_find s c = (if c \<in> set s then int (length (takeWhile (\<lambda>x. x \<noteq> c) s)) else - 1)"

text \<open>
  The slice \<^verbatim>\<open>s[i:]\<close>: a negative \<open>i\<close> counts from the end of the string, and an
  index outside the string is clipped to it.
\<close>

definition slice_from :: "pystr \<Rightarrow> int \<Rightarrow> pystr" where
  "slice_from s i = (if i < 0 then drop (nat (int (length s) + i)) s else drop (nat i) s)"

text \<open>Line 22: \<^verbatim>\<open>buffer = buffer[buffer.find("{"):]\<close>.\<close>

definition trim :: "pystr \<Rightarrow> pystr" where
  "trim buffer = slice_from buffer (py_find buffer (ord CHR ''{''))"

text \<open>
  Lines 23 to 30, the \<^verbatim>\<open>while True\<close> loop: decode at the start of the buffer with the
  decoder of line 18 (\<^verbatim>\<open>strict=False\<close>), yield the value and cut the buffer at the
  index, until the decoder raises. \<^verbatim>\<open>except json.JSONDecodeError\<close> leaves the loop;
  any other exception would leave the generator. The result is the list of the values
  yielded and either the exception that left the generator or the buffer after the
  loop. The loop ends because a decode that succeeds consumes at least one character.
\<close>

function drain :: "pystr \<Rightarrow> json list \<times> (error + pystr)" where
  "drain buffer =
     (case raw_decode False buffer of
        Inr (obj, idx) \<Rightarrow> (case drain (drop idx buffer) of (objs, r) \<Rightarrow> (obj # objs, r))
      | Inl JSONDecodeError \<Rightarrow> ([], Inr buffer)
      | Inl e \<Rightarrow> ([], Inl e))"
  by pat_completeness auto

termination
proof (relation "measure length")
  show "wf (measure length)" by simp
next
  fix buffer :: pystr and x obj idx
  assume "raw_decode False buffer = Inr x" "(obj, idx) = x"
  then have "raw_decode False buffer = Inr (obj, idx)" by simp
  from raw_decode_Inr [OF this] have "0 < idx" "idx \<le> length buffer" by blast+
  then show "(drop idx buffer, buffer) \<in> measure length" by simp
qed

declare drain.simps [simp del]

text \<open>
  Lines 21 to 30, the body of the \<^verbatim>\<open>for\<close> loop for one chunk: decode the chunk as
  UTF-8 (an ill-formed chunk raises \<^verbatim>\<open>UnicodeDecodeError\<close>, which nothing catches),
  append the text to the buffer, cut the buffer at its first brace, and run the inner
  loop.
\<close>

definition feed :: "pystr \<Rightarrow> byte list \<Rightarrow> json list \<times> (error + pystr)" where
  "feed buffer chunk =
     (case utf8_decode chunk of
        Inl e \<Rightarrow> ([], Inl e)
      | Inr text \<Rightarrow> drain (trim (buffer @ text)))"

text \<open>
  How the generator ends: the chunks are exhausted and the generator returns (what is
  left in the buffer is dropped), or an exception leaves it.
\<close>

datatype outcome = Finished | Raised error

text \<open>
  Lines 20 to 30, the \<^verbatim>\<open>for\<close> loop over the chunks of
  \<^verbatim>\<open>response.iter_content(chunk_size=None)\<close>, from a given buffer: all values yielded,
  in order, and how the generator ends. Values yielded before an exception stay yielded.
\<close>

fun for_chunks :: "pystr \<Rightarrow> byte list list \<Rightarrow> json list \<times> outcome" where
  "for_chunks buffer [] = ([], Finished)"
| "for_chunks buffer (chunk # chunks) =
     (case feed buffer chunk of
        (objs, Inl e) \<Rightarrow> (objs, Raised e)
      | (objs, Inr buffer') \<Rightarrow>
          (case for_chunks buffer' chunks of (more, out) \<Rightarrow> (objs @ more, out)))"

text \<open>Lines 9 to 30: the buffer starts empty (line 19).\<close>

definition parse_json_stream :: "byte list list \<Rightarrow> json list \<times> outcome" where
  "parse_json_stream chunks = for_chunks [] chunks"

text \<open>
  \<open>json_object_text s obj\<close>: the text \<open>s\<close> is one JSON object, from its opening brace
  to its closing brace, and the decoder of line 18 decodes it to \<open>obj\<close>.
\<close>

definition json_object_text :: "pystr \<Rightarrow> json \<Rightarrow> bool" where
  "json_object_text s obj = (take 1 s = [ord CHR ''{''] \<and> raw_decode False s = Inr (obj, length s))"

text \<open>
  The stream as text: the texts of the chunks, one after the other, up to the first chunk
  that does not decode as UTF-8 (the generator ends there).
\<close>

fun decoded_text :: "byte list list \<Rightarrow> pystr" where
  "decoded_text [] = []"
| "decoded_text (chunk # chunks) =
     (case utf8_decode chunk of
        Inl e \<Rightarrow> []
      | Inr t \<Rightarrow> t @ decoded_text chunks)"

text \<open>
  \<open>decoded_at s obj (a, b)\<close>: the value \<open>obj\<close> is what the decoder of line 18 reads from
  the characters \<open>a\<close> to \<open>b - 1\<close> of the text \<open>s\<close>. It is decoded from position \<open>a\<close> of
  the first \<open>k\<close> characters of \<open>s\<close>, for some \<open>k\<close> from \<open>b\<close> on (what has arrived of the
  stream at that time), and the decoder stops at position \<open>b\<close>.
\<close>

definition decoded_at :: "pystr \<Rightarrow> json \<Rightarrow> nat \<times> nat \<Rightarrow> bool" where
  "decoded_at s obj span =
     (case span of (a, b) \<Rightarrow>
        a < b \<and> (\<exists>k \<in> {b..length s}. raw_decode False (drop a (take k s)) = Inr (obj, b - a)))"

text \<open>Stretches of the text that follow each other: each ends before the next starts.\<close>

definition in_order :: "(nat \<times> nat) list \<Rightarrow> bool" where
  "in_order spans = sorted_wrt (\<lambda>x y. snd x \<le> fst y) spans"

section \<open>Evaluating the model on concrete chunks\<close>

text \<open>
  The simplifier runs the model on concrete input with these equations: the scanner's
  equations for a fuel written as a numeral, and the definitions of the decoder and of
  the generator.
\<close>

lemma scan_numeral:
  "scan_once (numeral k) strict s = scan_once (Suc (pred_numeral k)) strict s"
  "JSONObject (numeral k) strict s = JSONObject (Suc (pred_numeral k)) strict s"
  "object_loop (numeral k) strict s ps = object_loop (Suc (pred_numeral k)) strict s ps"
  "JSONArray (numeral k) strict s = JSONArray (Suc (pred_numeral k)) strict s"
  "array_loop (numeral k) strict s vs = array_loop (Suc (pred_numeral k)) strict s vs"
  by (simp_all only: numeral_eq_Suc)

lemmas scan_numeral_simps =
  scan_numeral [unfolded scan_once.simps JSONObject.simps object_loop.simps JSONArray.simps array_loop.simps]

lemmas decoder_eval =
  scan_numeral_simps raw_decode_def str_def scan_atom_def match_number_def match_integer_def
  match_frac_def match_exp_def is_digit_def parse_int_def digits_value_def object_key_def
  object_next_def array_next_def skip_ws_def is_ws_def dict_def decode_uXXXX_def hex_value_def
  BACKSLASH_def append_char_def

lemmas stream_eval =
  parse_json_stream_def feed_def trim_def py_find_def slice_from_def drain.simps
  utf8_first_def is_cont_def cont_bits_def ascii_def

section \<open>Properties of the generator\<close>

text \<open>
  The inner loop: a failed decode leaves it with the buffer as it is, a successful one
  yields the value and goes on with the rest of the buffer. It always ends, with a buffer
  that is a suffix of the one it started from and that the decoder rejects.
\<close>

lemma drain_fail: "raw_decode False buffer = Inl e \<Longrightarrow> drain buffer = ([], Inr buffer)"
  using raw_decode_Inl [of False buffer e] by (subst drain.simps) auto

lemma drain_step:
  "raw_decode False buffer = Inr (obj, idx) \<Longrightarrow>
     drain buffer = (obj # fst (drain (drop idx buffer)), snd (drain (drop idx buffer)))"
  by (subst drain.simps) (simp split: prod.splits)

lemma drain_total:
  "\<exists>objs rest. drain buffer = (objs, Inr rest) \<and> suffix rest buffer
     \<and> raw_decode False rest = Inl JSONDecodeError"
proof (induction "length buffer" arbitrary: buffer rule: less_induct)
  case less
  show ?case
  proof (cases "raw_decode False buffer")
    case (Inl e)
    from raw_decode_Inl [OF Inl] Inl drain_fail [OF Inl] show ?thesis by auto
  next
    case (Inr x)
    obtain obj idx where x: "x = (obj, idx)" by (cases x)
    from raw_decode_Inr [of False buffer obj idx] Inr x have i: "0 < idx" "idx \<le> length buffer" by auto
    then have "length (drop idx buffer) < length buffer" by simp
    from less.hyps [OF this] obtain objs rest where
      d: "drain (drop idx buffer) = (objs, Inr rest)" "suffix rest (drop idx buffer)"
      "raw_decode False rest = Inl JSONDecodeError" by blast
    from d(2) have "suffix rest buffer" by (rule suffix_dropD)
    with drain_step [of buffer obj idx] Inr x d show ?thesis by simp
  qed
qed

lemma find_brace: "take 1 s = [c] \<Longrightarrow> py_find s c = 0"
  by (cases s) (auto simp: py_find_def)

lemma trim_brace: "take 1 s = [ord CHR ''{''] \<Longrightarrow> trim s = s"
  using find_brace [of s "ord CHR ''{''"] by (simp add: trim_def slice_from_def)

lemma trim_Nil: "trim [] = []"
  by (simp add: trim_def slice_from_def)

lemma trim_skip:
  "ord CHR ''{'' \<notin> set w \<Longrightarrow> take 1 s = [ord CHR ''{''] \<Longrightarrow> trim (w @ s) = s"
proof -
  assume a: "ord CHR ''{'' \<notin> set w" "take 1 s = [ord CHR ''{'']"
  then obtain s' where s: "s = ord CHR ''{'' # s'" by (cases s) auto
  have "takeWhile (\<lambda>x. x \<noteq> ord CHR ''{'') (w @ s) = w"
    using a(1) s by (subst takeWhile_append2) auto
  then show ?thesis using s by (simp add: trim_def py_find_def slice_from_def)
qed

lemma json_object_text_append:
  "json_object_text s obj \<Longrightarrow> raw_decode False (s @ t) = Inr (obj, length s)"
proof -
  assume a: "json_object_text s obj"
  then have "s \<noteq> []" "hd s = ord CHR ''{''" by (cases s; auto simp: json_object_text_def)+
  then have "stable_end s (drop (length s) s)" by (simp add: stable_end_def)
  with a show ?thesis by (intro raw_decode_append) (simp_all add: json_object_text_def)
qed

lemma drain_objects:
  "list_all2 json_object_text ts objs \<Longrightarrow> raw_decode False rest = Inl e \<Longrightarrow>
     drain (concat ts @ rest) = (objs, Inr rest)"
proof (induction rule: list_all2_induct)
  case Nil
  then show ?case by (simp add: drain_fail)
next
  case (Cons t ts obj objs)
  from json_object_text_append [OF Cons.hyps(1), of "concat ts @ rest"]
  have "raw_decode False (concat (t # ts) @ rest) = Inr (obj, length t)" by simp
  from drain_step [OF this] Cons.IH [OF Cons.prems] show ?case by simp
qed

text \<open>The decoder rejects the empty text and a text that begins with whitespace.\<close>

lemma raw_decode_Nil: "raw_decode strict [] = Inl JSONDecodeError"
  by (simp add: raw_decode_def)

lemma scan_atom_ws: "is_ws c \<Longrightarrow> scan_atom (c # s) = Fail"
proof -
  assume "is_ws c"
  then have c: "c \<noteq> 110" "c \<noteq> 116" "c \<noteq> 102" "c \<noteq> 78" "c \<noteq> 73" "c \<noteq> 45" "c \<noteq> 48"
      "\<not> is_digit c"
    by (auto simp: is_ws_def is_digit_def)
  then have "match_number (c # s) = None"
    by (simp add: match_number_def match_integer_def)
  with c show ?thesis
    by (simp add: scan_atom_def str_simps)
qed

lemma scan_once_ws: "is_ws c \<Longrightarrow> scan_once n strict (c # s) \<noteq> Ok x"
  by (cases n) (auto simp: scan_atom_ws is_ws_def)

lemma raw_decode_ws: "is_ws c \<Longrightarrow> raw_decode strict (c # s) = Inl JSONDecodeError"
  using scan_once_ws [of c "3 * length (c # s) + 1" strict s]
  by (auto simp: raw_decode_def split: scan.splits simp del: scan_once.simps)


lemma ws_no_brace: "list_all is_ws ws \<Longrightarrow> ord CHR ''{'' \<notin> set ws"
  by (auto simp: list_all_iff is_ws_def)

lemma json_object_text_take: "json_object_text t obj \<Longrightarrow> take 1 (t @ s) = [ord CHR ''{'']"
  by (cases t) (auto simp: json_object_text_def)

text \<open>
  The UTF-8 decoder: a character takes its first byte and the continuation bytes that
  follow; a continuation byte starts no character. So a byte string that ends with the
  first bytes of a character, but not all of them, does not decode, whatever comes
  before them.
\<close>

lemma utf8_decode_Inl: "utf8_decode bs = Inl e \<Longrightarrow> e = UnicodeDecodeError"
  by (induction bs rule: utf8_decode.induct) (auto split: option.splits sum.splits)

lemma utf8_first_cont: "is_cont b0 \<Longrightarrow> utf8_first b0 bs = None"
  by (simp add: utf8_first_def is_cont_def word_le_nat_alt word_less_nat_alt)

lemma utf8_first_take:
  "utf8_first b0 bs = Some (c, n) \<Longrightarrow> n \<le> length bs \<and> list_all is_cont (take n bs)"
  by (auto simp: utf8_first_def split: if_splits list.splits)

lemma utf8_first_bytes:
  "utf8_first b0 bs = Some (c, n) \<Longrightarrow> n \<le> length bs \<and> (\<forall>j<n. is_cont (bs ! j))"
proof -
  assume "utf8_first b0 bs = Some (c, n)"
  from utf8_first_take [OF this] have n: "n \<le> length bs" and l: "list_all is_cont (take n bs)"
    by simp_all
  have "is_cont (bs ! j)" if "j < n" for j
  proof -
    from that n have "take n bs ! j \<in> set (take n bs)" by (intro nth_mem) simp
    with l have "is_cont (take n bs ! j)" by (simp add: list_all_iff)
    with that show ?thesis by simp
  qed
  with n show ?thesis by simp
qed

lemma utf8_first_SomeD:
  "utf8_first b0 bs = Some (c, n) \<Longrightarrow> \<not> is_cont b0 \<and> n \<le> length bs \<and> (\<forall>j<n. is_cont (bs ! j))"
  using utf8_first_cont [of b0 bs] utf8_first_bytes [of b0 bs c n] by auto

lemma utf8_first_len:
  "utf8_first b0 bs = Some (c, n) \<Longrightarrow> utf8_first b0 bs' = Some (c', n') \<Longrightarrow> n' = n"
  by (auto simp: utf8_first_def split: if_splits list.splits)

lemma utf8_decode_Nil_iff: "utf8_decode bs = Inr [] \<longleftrightarrow> bs = []"
  by (cases bs) (auto split: option.splits sum.splits)

lemma utf8_decode_cont: "is_cont b \<Longrightarrow> utf8_decode (b # bs) = Inl UnicodeDecodeError"
  using utf8_first_SomeD [of b bs] by (auto split: option.splits)

lemma utf8_decode_prepend:
  assumes "p \<noteq> []" and "\<not> is_cont (hd p)" and "utf8_decode p = Inl e"
  shows "utf8_decode (a @ p) = Inl UnicodeDecodeError"
proof (induction "length a" arbitrary: a rule: less_induct)
  case less
  show ?case
  proof (cases a)
    case Nil
    with assms(3) utf8_decode_Inl [OF assms(3)] show ?thesis by simp
  next
    case (Cons x a')
    show ?thesis
    proof (cases "utf8_first x (a' @ p)")
      case None
      with Cons show ?thesis by simp
    next
      case (Some r)
      obtain c n where r: "r = (c, n)" by (cases r)
      from utf8_first_SomeD [of x "a' @ p" c n] Some r
      have n: "\<forall>j<n. is_cont ((a' @ p) ! j)" by simp
      have "n \<le> length a'"
      proof (rule ccontr)
        assume "\<not> n \<le> length a'"
        then have "is_cont ((a' @ p) ! length a')" using n by simp
        with assms(1,2) show False by (simp add: nth_append hd_conv_nth)
      qed
      then have "drop n (a' @ p) = drop n a' @ p" by simp
      moreover have "utf8_decode (drop n a' @ p) = Inl UnicodeDecodeError"
        using Cons by (intro less) simp
      ultimately show ?thesis using Cons Some r by simp
    qed
  qed
qed

lemma utf8_split_character:
  assumes "p \<noteq> []" and "q \<noteq> []" and "utf8_decode (p @ q) = Inr [c]"
  shows "\<not> is_cont (hd p) \<and> utf8_decode p = Inl UnicodeDecodeError \<and> is_cont (hd q)"
proof -
  obtain b0 p' where p: "p = b0 # p'" using assms(1) by (cases p) auto
  from assms(3) p obtain n where f: "utf8_first b0 (p' @ q) = Some (c, n)"
    and d: "utf8_decode (drop n (p' @ q)) = Inr []"
    by (auto split: option.splits sum.splits)
  from d have "drop n (p' @ q) = []" by (simp add: utf8_decode_Nil_iff)
  then have "length (p' @ q) \<le> n" by (simp only: drop_eq_Nil)
  then have n: "length p' + length q \<le> n" by simp
  from utf8_first_SomeD [OF f] have c: "\<not> is_cont b0" "\<forall>j<n. is_cont ((p' @ q) ! j)" by simp_all
  have "utf8_first b0 p' = None"
  proof (cases "utf8_first b0 p'")
    case (Some r)
    obtain c' n' where r: "r = (c', n')" by (cases r)
    from utf8_first_len [OF f, of p' c' n'] Some r have "n' = n" by simp
    moreover from utf8_first_SomeD [of b0 p' c' n'] Some r have "n' \<le> length p'" by simp
    moreover have "0 < length q" using assms(2) by simp
    ultimately have False using n by arith
    then show ?thesis ..
  qed simp
  then have "utf8_decode p = Inl UnicodeDecodeError" using p by simp
  moreover have "is_cont (hd q)"
  proof -
    have "length p' < n" using n assms(2) by (cases q) auto
    with c(2) have "is_cont ((p' @ q) ! length p')" by blast
    then show ?thesis using assms(2) by (simp add: nth_append hd_conv_nth)
  qed
  ultimately show ?thesis using c(1) p by simp
qed

lemma for_chunks_raises:
  "chunk \<in> set chunks \<Longrightarrow> utf8_decode chunk = Inl e \<Longrightarrow>
     snd (for_chunks buffer chunks) = Raised UnicodeDecodeError"
proof (induction chunks arbitrary: buffer)
  case Nil
  then show ?case by simp
next
  case (Cons x chunks)
  show ?case
  proof (cases "utf8_decode x")
    case (Inl e')
    from utf8_decode_Inl [OF Inl] Inl show ?thesis by (simp add: feed_def)
  next
    case (Inr t)
    with Cons.prems have m: "chunk \<in> set chunks" by auto
    from drain_total [of "trim (buffer @ t)"] obtain objs rest where
      "drain (trim (buffer @ t)) = (objs, Inr rest)" by blast
    with Inr Cons.IH [OF m Cons.prems(2), of rest] show ?thesis
      by (cases "for_chunks rest chunks") (simp add: feed_def)
  qed
qed

text \<open>
  Line 22 cuts a prefix from the buffer. Every value comes from its own stretch of the
  stream, and the stretches follow each other: the invariant is that the buffer is the
  text that has arrived, from a position \<open>pos\<close> on.
\<close>

lemma trim_drop: "\<exists>j\<le>length s. trim s = drop j s"
proof (cases "ord CHR ''{'' \<in> set s")
  case True
  have "length (takeWhile (\<lambda>x. x \<noteq> ord CHR ''{'') s) \<le> length s" by (rule length_takeWhile_le)
  with True show ?thesis by (auto simp: trim_def py_find_def slice_from_def simp del: ord_def)
next
  case False
  then have "trim s = drop (length s - 1) s"
    by (simp add: trim_def py_find_def slice_from_def nat_diff_distrib' del: ord_def)
  then show ?thesis by (intro exI [of _ "length s - 1"]) simp
qed

lemma drain_spans:
  assumes "pos \<le> k" and "k \<le> length s"
  shows "\<exists>spans pos'. list_all2 (decoded_at s) (fst (drain (drop pos (take k s)))) spans
           \<and> in_order spans \<and> (\<forall>x\<in>set spans. pos \<le> fst x \<and> snd x \<le> pos')
           \<and> pos \<le> pos' \<and> pos' \<le> k
           \<and> snd (drain (drop pos (take k s))) = Inr (drop pos' (take k s))"
  using assms(1)
proof (induction "k - pos" arbitrary: pos rule: less_induct)
  case less
  let ?b = "drop pos (take k s)"
  show ?case
  proof (cases "raw_decode False ?b")
    case (Inl e)
    from drain_fail [OF Inl] less.prems show ?thesis
      by (intro exI [of _ "[]"] exI [of _ pos]) (simp add: in_order_def)
  next
    case (Inr x)
    obtain obj idx where x: "x = (obj, idx)" by (cases x)
    from raw_decode_Inr [of False ?b obj idx] Inr x have i: "0 < idx" "idx \<le> length ?b" by auto
    with assms(2) less.prems have ik: "pos + idx \<le> k" by simp
    have d: "drop idx ?b = drop (pos + idx) (take k s)" by (simp add: add.commute)
    from i ik have "k - (pos + idx) < k - pos" by simp
    from less.hyps [OF this ik] obtain spans pos' where
      sp: "list_all2 (decoded_at s) (fst (drain (drop (pos + idx) (take k s)))) spans"
        "in_order spans" "\<forall>x\<in>set spans. pos + idx \<le> fst x \<and> snd x \<le> pos'"
        "pos + idx \<le> pos'" "pos' \<le> k"
        "snd (drain (drop (pos + idx) (take k s))) = Inr (drop pos' (take k s))" by blast
    have a: "decoded_at s obj (pos, pos + idx)"
      using Inr x i ik assms(2) by (auto simp: decoded_at_def intro!: bexI [of _ k])
    from drain_step [of ?b obj idx] Inr x d
    have st: "drain ?b = (obj # fst (drain (drop (pos + idx) (take k s))),
                          snd (drain (drop (pos + idx) (take k s))))" by simp
    show ?thesis
      using st sp a
      by (intro exI [of _ "(pos, pos + idx) # spans"] exI [of _ pos']) (auto simp: in_order_def)
  qed
qed

lemma for_chunks_spans:
  assumes "pos \<le> k" and "k \<le> length s" and "drop k s = decoded_text chunks"
  shows "\<exists>spans. list_all2 (decoded_at s) (fst (for_chunks (drop pos (take k s)) chunks)) spans
           \<and> in_order spans \<and> (\<forall>x\<in>set spans. pos \<le> fst x)"
  using assms
proof (induction chunks arbitrary: pos k)
  case Nil
  then show ?case by (intro exI [of _ "[]"]) (simp add: in_order_def)
next
  case (Cons chunk chunks)
  show ?case
  proof (cases "utf8_decode chunk")
    case (Inl e)
    then show ?thesis by (intro exI [of _ "[]"]) (simp add: in_order_def feed_def)
  next
    case (Inr t)
    let ?k = "k + length t"
    from Cons.prems(3) Inr have e: "drop k s = t @ decoded_text chunks" by simp
    then have "length (drop k s) = length t + length (decoded_text chunks)" by simp
    with Cons.prems(2) have k: "?k \<le> length s" by simp
    have "take (length t) (drop k s) = t" using e by simp
    then have tk: "take ?k s = take k s @ t" by (simp add: take_add)
    have dk: "drop ?k s = decoded_text chunks" using e
      by (metis add.commute append_eq_conv_conj drop_drop)
    from trim_drop [of "drop pos (take ?k s)"] obtain j where
      j: "j \<le> length (drop pos (take ?k s))" "trim (drop pos (take ?k s)) = drop j (drop pos (take ?k s))"
      by blast
    from j(1) k Cons.prems(1) have pj: "pos + j \<le> ?k" by simp
    have b: "drop pos (take k s) @ t = drop pos (take ?k s)"
      using tk Cons.prems(1,2) by simp
    have f: "feed (drop pos (take k s)) chunk = drain (drop (pos + j) (take ?k s))"
      using Inr b j(2) by (simp add: feed_def add.commute)
    from drain_spans [OF pj k] obtain spans1 pos' where
      s1: "list_all2 (decoded_at s) (fst (drain (drop (pos + j) (take ?k s)))) spans1"
        "in_order spans1" "\<forall>x\<in>set spans1. pos + j \<le> fst x \<and> snd x \<le> pos'"
        "pos + j \<le> pos'" "pos' \<le> ?k"
        "snd (drain (drop (pos + j) (take ?k s))) = Inr (drop pos' (take ?k s))" by blast
    from Cons.IH [OF s1(5) k dk] obtain spans2 where
      s2: "list_all2 (decoded_at s) (fst (for_chunks (drop pos' (take ?k s)) chunks)) spans2"
        "in_order spans2" "\<forall>x\<in>set spans2. pos' \<le> fst x" by blast
    have fc: "fst (for_chunks (drop pos (take k s)) (chunk # chunks))
        = fst (drain (drop (pos + j) (take ?k s))) @ fst (for_chunks (drop pos' (take ?k s)) chunks)"
      using f s1(6)
      by (cases "drain (drop (pos + j) (take ?k s))"; cases "for_chunks (drop pos' (take ?k s)) chunks")
         simp
    have "list_all2 (decoded_at s) (fst (for_chunks (drop pos (take k s)) (chunk # chunks))) (spans1 @ spans2)"
      unfolding fc using s1(1) s2(1) by (rule list_all2_appendI)
    moreover have "in_order (spans1 @ spans2)"
      using s1(2,3) s2(2,3) by (fastforce simp: in_order_def sorted_wrt_append)
    moreover have "\<forall>x\<in>set (spans1 @ spans2). pos \<le> fst x"
      using s1(3,4) s2(3) by fastforce
    ultimately show ?thesis by blast
  qed
qed

section \<open>The claims\<close>

subsection \<open>Chunks that split a character\<close>

text \<open>
  Claim C1 (boundary independence): a byte string of concatenated JSON objects, cut into
  chunks at any points, yields the same objects as the whole string in one chunk. The
  code decodes every chunk as UTF-8 on its own (line 21), so a cut inside a character of
  two or more bytes raises \<^verbatim>\<open>UnicodeDecodeError\<close>: the object with the key \<^verbatim>\<open>a\<close> and the
  one-character string U+00E9 is yielded from one chunk, and nothing is yielded, and the generator raises, when the
  two bytes \<open>C3 A9\<close> of U+00E9 arrive in two chunks.
\<close>

theorem split_character_raises:
  "parse_json_stream [ascii ''{\"a\":\"'' @ [0xC3, 0xA9] @ ascii ''\"}'']
     = ([PyDict [(str ''a'', PyStr [0xE9])]], Finished) \<and>
   parse_json_stream [ascii ''{\"a\":\"'' @ [0xC3], [0xA9] @ ascii ''\"}'']
     = ([], Raised UnicodeDecodeError)"
  by (simp add: decoder_eval stream_eval)

text \<open>
  Claim C3 (no partial emission, silent drop at the end of the stream): when the stream
  ends inside an object, the complete objects before it are yielded, nothing is yielded
  for the fragment, and no error is raised. The stream of the theorem, that
  object followed by \<^verbatim>\<open>{"b":\<close>, ends inside its second object. In one chunk the first object is yielded and the generator
  returns. With a chunk boundary inside U+00E9 the generator raises
  \<^verbatim>\<open>UnicodeDecodeError\<close> and yields nothing; so it does when the stream itself ends
  inside a character, even for the complete object \<^verbatim>\<open>{"a":1}\<close> of the same chunk.
\<close>

theorem truncated_stream_raises:
  "parse_json_stream [ascii ''{\"a\":\"'' @ [0xC3, 0xA9] @ ascii ''\"}{\"b\":'']
     = ([PyDict [(str ''a'', PyStr [0xE9])]], Finished) \<and>
   parse_json_stream [ascii ''{\"a\":\"'' @ [0xC3], [0xA9] @ ascii ''\"}{\"b\":'']
     = ([], Raised UnicodeDecodeError) \<and>
   parse_json_stream [ascii ''{\"a\":1}{\"b\":\"'' @ [0xC3]]
     = ([], Raised UnicodeDecodeError)"
  by (simp add: decoder_eval stream_eval)

subsection \<open>The cut at the first brace\<close>

text \<open>
  Claim C5 (trim to the start of an object): after every chunk the bytes before the
  first \<^verbatim>\<open>{\<close> are discarded, so no byte before the first object is part of a yielded
  value. When the buffer holds no \<^verbatim>\<open>{\<close>, \<^verbatim>\<open>find\<close> returns \<open>-1\<close> and the slice
  \<^verbatim>\<open>buffer[-1:]\<close> keeps the last character. After the chunk \<^verbatim>\<open>junk7\<close> the buffer is
  \<^verbatim>\<open>7\<close>, which the decoder reads as the number 7: the generator yields 7 before the
  object.
\<close>

theorem trim_keeps_last_character:
  "parse_json_stream [ascii ''junk7'', ascii ''{\"x\":true}'']
     = ([PyInt 7, PyDict [(str ''x'', PyBool True)]], Finished)"
  by (simp add: decoder_eval stream_eval)

subsection \<open>The inner loop\<close>

text \<open>
  Claim C6 (exact consumption on success): when the decode of the buffer succeeds with
  the value \<open>obj\<close> and the end index \<open>idx\<close>, the generator yields \<open>obj\<close> first, and goes
  on with the buffer without its first \<open>idx\<close> characters, \<open>drop idx buffer\<close>: what the
  inner loop yields after \<open>obj\<close>, and the buffer it ends with, are those of the inner
  loop run on \<open>drop idx buffer\<close>. The index is positive and within the buffer, so the
  rest of the buffer is the buffer's own characters from \<open>idx\<close> on, unchanged.
\<close>

theorem decode_success_consumes_exactly:
  assumes "raw_decode False buffer = Inr (obj, idx)"
  shows "0 < idx \<and> idx \<le> length buffer \<and>
         drain buffer = (obj # fst (drain (drop idx buffer)), snd (drain (drop idx buffer)))"
  using raw_decode_Inr [OF assms] drain_step [OF assms] by simp

theorem decode_success_consumes_exactly_witness:
  "raw_decode False (str ''{\"a\":1}{\"b\":'') = Inr (PyDict [(str ''a'', PyInt 1)], 7) \<and>
   drain (str ''{\"a\":1}{\"b\":'') = ([PyDict [(str ''a'', PyInt 1)]], Inr (str ''{\"b\":''))"
proof -
  have h: "raw_decode False (str ''{\"a\":1}{\"b\":'') = Inr (PyDict [(str ''a'', PyInt 1)], 7)"
    by (simp add: decoder_eval)
  have r: "drain (drop 7 (str ''{\"a\":1}{\"b\":'')) = ([], Inr (str ''{\"b\":''))"
    by (simp add: decoder_eval drain.simps)
  from decode_success_consumes_exactly [OF h] h r show ?thesis by simp
qed



subsection \<open>Several objects in one chunk\<close>

text \<open>
  Claim C7 (back-to-back objects in one chunk): a first chunk whose text is the
  concatenation of the texts \<open>ts\<close> of complete JSON objects, with nothing between them,
  yields all their values \<open>objs\<close>, in order, in the body of the loop for that chunk
  alone, and leaves the buffer empty. So the stream of that one chunk yields exactly
  \<open>objs\<close>, and with more chunks after it, \<open>objs\<close> come first and the rest is what the
  generator yields for the other chunks alone.
\<close>

theorem adjacent_objects_one_chunk:
  assumes "list_all2 json_object_text ts objs" and "utf8_decode chunk = Inr (concat ts)"
  shows "feed [] chunk = (objs, Inr []) \<and>
         parse_json_stream [chunk] = (objs, Finished) \<and>
         parse_json_stream (chunk # chunks)
           = (objs @ fst (parse_json_stream chunks), snd (parse_json_stream chunks))"
proof -
  have t: "trim (concat ts) = concat ts"
  proof (cases ts)
    case Nil
    then show ?thesis by (simp add: trim_Nil)
  next
    case (Cons t ts')
    with assms(1) obtain obj where "json_object_text t obj" by (auto simp: list_all2_Cons1)
    then have "take 1 t = [ord CHR ''{'']" by (simp add: json_object_text_def)
    then have "take 1 (concat ts) = [ord CHR ''{'']" using Cons by (cases t) auto
    then show ?thesis by (rule trim_brace)
  qed
  from drain_objects [OF assms(1) raw_decode_Nil [of False]]
  have "drain (concat ts) = (objs, Inr [])" by simp
  with t assms(2) have f: "feed [] chunk = (objs, Inr [])" by (simp add: feed_def)
  then show ?thesis by (simp add: parse_json_stream_def split: prod.splits)
qed

theorem adjacent_objects_one_chunk_witness:
  "list_all2 json_object_text [str ''{\"a\":1}'', str ''{\"b\":2}'', str ''{\"c\":3}'']
     [PyDict [(str ''a'', PyInt 1)], PyDict [(str ''b'', PyInt 2)], PyDict [(str ''c'', PyInt 3)]] \<and>
   utf8_decode (ascii ''{\"a\":1}{\"b\":2}{\"c\":3}'')
     = Inr (concat [str ''{\"a\":1}'', str ''{\"b\":2}'', str ''{\"c\":3}'']) \<and>
   parse_json_stream [ascii ''{\"a\":1}{\"b\":2}{\"c\":3}'']
     = ([PyDict [(str ''a'', PyInt 1)], PyDict [(str ''b'', PyInt 2)], PyDict [(str ''c'', PyInt 3)]],
        Finished)"
proof -
  have h: "list_all2 json_object_text [str ''{\"a\":1}'', str ''{\"b\":2}'', str ''{\"c\":3}'']
     [PyDict [(str ''a'', PyInt 1)], PyDict [(str ''b'', PyInt 2)], PyDict [(str ''c'', PyInt 3)]]"
    by (simp add: json_object_text_def decoder_eval)
  have u: "utf8_decode (ascii ''{\"a\":1}{\"b\":2}{\"c\":3}'')
     = Inr (concat [str ''{\"a\":1}'', str ''{\"b\":2}'', str ''{\"c\":3}''])"
    by (simp add: stream_eval str_def)
  from adjacent_objects_one_chunk [OF h u, of "[]"] h u show ?thesis by simp
qed

text \<open>
  Claim C10 (whitespace between two objects of one chunk): the decoder skips no
  whitespace before a value, and line 22 runs once for a chunk. When the text of the
  first chunk is an object \<open>t1\<close>, whitespace \<open>ws\<close> and a second object \<open>t2\<close>, the
  body of the loop yields the first object alone and leaves the buffer \<open>ws @ t2\<close>: a
  stream that ends there never yields the second object. With any further chunk that
  decodes as UTF-8, even an empty one, the cut at the first brace removes the whitespace
  and the second object is the first value yielded for that chunk.
\<close>

theorem whitespace_delays_second_object:
  assumes "json_object_text t1 obj1" and "json_object_text t2 obj2"
    and "ws \<noteq> []" and "list_all is_ws ws"
    and "utf8_decode chunk = Inr (t1 @ ws @ t2)"
  shows "feed [] chunk = ([obj1], Inr (ws @ t2)) \<and>
         parse_json_stream [chunk] = ([obj1], Finished) \<and>
         (\<forall>chunk2 text2. utf8_decode chunk2 = Inr text2 \<longrightarrow>
            feed (ws @ t2) chunk2 = (obj2 # fst (drain text2), snd (drain text2))) \<and>
         (\<forall>chunk2 text2. utf8_decode chunk2 = Inr text2 \<longrightarrow>
            (\<exists>objs. parse_json_stream [chunk, chunk2] = (obj1 # obj2 # objs, Finished)))"
proof -
  obtain w ws' where ws: "ws = w # ws'" "is_ws w" using assms(3,4) by (cases ws) auto
  have t: "trim (t1 @ ws @ t2) = t1 @ ws @ t2"
    using json_object_text_take [OF assms(1)] by (rule trim_brace)
  have "raw_decode False (ws @ t2) = Inl JSONDecodeError"
    using ws by (simp add: raw_decode_ws)
  from drain_objects [of "[t1]" "[obj1]", OF _ this] assms(1)
  have d: "drain (t1 @ ws @ t2) = ([obj1], Inr (ws @ t2))" by simp
  with t assms(5) have f: "feed [] chunk = ([obj1], Inr (ws @ t2))" by (simp add: feed_def)
  have g: "feed (ws @ t2) chunk2 = (obj2 # fst (drain text2), snd (drain text2))"
    if u: "utf8_decode chunk2 = Inr text2" for chunk2 text2
  proof -
    have "trim (ws @ t2 @ text2) = t2 @ text2"
      using ws_no_brace [OF assms(4)] json_object_text_take [OF assms(2)] by (rule trim_skip)
    moreover have "raw_decode False (t2 @ text2) = Inr (obj2, length t2)"
      using assms(2) by (rule json_object_text_append)
    from drain_step [OF this] have "drain (t2 @ text2) = (obj2 # fst (drain text2), snd (drain text2))"
      by simp
    ultimately show ?thesis using u by (simp add: feed_def)
  qed
  have h: "\<exists>objs. parse_json_stream [chunk, chunk2] = (obj1 # obj2 # objs, Finished)"
    if u: "utf8_decode chunk2 = Inr text2" for chunk2 text2
  proof -
    from drain_total [of text2] obtain objs rest where "drain text2 = (objs, Inr rest)" by blast
    with g [OF u] f show ?thesis by (simp add: parse_json_stream_def)
  qed
  from f g h show ?thesis by (simp add: parse_json_stream_def)
qed

theorem whitespace_delays_second_object_witness:
  "json_object_text (str ''{\"a\":1}'') (PyDict [(str ''a'', PyInt 1)]) \<and>
   json_object_text (str ''{\"b\":2}'') (PyDict [(str ''b'', PyInt 2)]) \<and>
   list_all is_ws (str '' '') \<and>
   utf8_decode (ascii ''{\"a\":1} {\"b\":2}'') = Inr (str ''{\"a\":1}'' @ str '' '' @ str ''{\"b\":2}'') \<and>
   utf8_decode (ascii ''{'') = Inr (str ''{'') \<and>
   parse_json_stream [ascii ''{\"a\":1} {\"b\":2}''] = ([PyDict [(str ''a'', PyInt 1)]], Finished) \<and>
   feed (str '' '' @ str ''{\"b\":2}'') (ascii ''{'') = ([PyDict [(str ''b'', PyInt 2)]], Inr (str ''{''))"
proof -
  have a: "json_object_text (str ''{\"a\":1}'') (PyDict [(str ''a'', PyInt 1)])"
    by (simp add: json_object_text_def decoder_eval)
  have b: "json_object_text (str ''{\"b\":2}'') (PyDict [(str ''b'', PyInt 2)])"
    by (simp add: json_object_text_def decoder_eval)
  have w: "str '' '' \<noteq> []" "list_all is_ws (str '' '')"
    by (simp_all add: str_def is_ws_def)
  have u: "utf8_decode (ascii ''{\"a\":1} {\"b\":2}'')
      = Inr (str ''{\"a\":1}'' @ str '' '' @ str ''{\"b\":2}'')"
    by (simp add: stream_eval str_def)
  have u2: "utf8_decode (ascii ''{'') = Inr (str ''{'')"
    by (simp add: stream_eval str_def)
  have d: "drain (str ''{'') = ([], Inr (str ''{''))"
    by (simp add: decoder_eval drain.simps)
  from whitespace_delays_second_object [OF a b w u] a b w u u2 d show ?thesis by simp
qed

subsection \<open>A chunk boundary inside a character\<close>

text \<open>
  Claim C9 (a chunk boundary inside a character of two or more bytes is a hard error):
  let the bytes \<open>p @ q\<close> be the UTF-8 form of one character \<open>c\<close>, cut in two non-empty
  parts. A chunk that ends with \<open>p\<close> does not decode, and neither does a chunk that
  begins with \<open>q\<close>: line 21 raises \<^verbatim>\<open>UnicodeDecodeError\<close>. Nothing is yielded for
  that chunk, and a stream with such a chunk ends with \<^verbatim>\<open>UnicodeDecodeError\<close>, which
  the generator does not catch.
\<close>

theorem split_character_is_hard_error:
  assumes "p \<noteq> []" and "q \<noteq> []" and "utf8_decode (p @ q) = Inr [c]"
  shows "utf8_decode (a @ p) = Inl UnicodeDecodeError \<and>
         utf8_decode (q @ b) = Inl UnicodeDecodeError \<and>
         feed buffer (a @ p) = ([], Inl UnicodeDecodeError) \<and>
         (a @ p \<in> set chunks \<or> q @ b \<in> set chunks \<longrightarrow>
            snd (parse_json_stream chunks) = Raised UnicodeDecodeError)"
proof -
  from utf8_split_character [OF assms]
  have s: "\<not> is_cont (hd p)" "utf8_decode p = Inl UnicodeDecodeError" "is_cont (hd q)" by simp_all
  from utf8_decode_prepend [OF assms(1) s(1,2)]
  have 1: "utf8_decode (a @ p) = Inl UnicodeDecodeError" .
  have 2: "utf8_decode (q @ b) = Inl UnicodeDecodeError"
    using assms(2) s(3) utf8_decode_cont [of "hd q" "tl q @ b"] by (cases q) auto
  from 1 have 3: "feed buffer (a @ p) = ([], Inl UnicodeDecodeError)" by (simp add: feed_def)
  from 1 2 for_chunks_raises [of _ chunks UnicodeDecodeError "[]"]
  have 4: "a @ p \<in> set chunks \<or> q @ b \<in> set chunks \<longrightarrow>
            snd (parse_json_stream chunks) = Raised UnicodeDecodeError"
    by (auto simp: parse_json_stream_def)
  from 1 2 3 4 show ?thesis by simp
qed

theorem split_character_is_hard_error_witness:
  "utf8_decode ([0xC3] @ [0xA9]) = Inr [0xE9] \<and>
   utf8_decode (ascii ''{\"a\":\"'' @ [0xC3]) = Inl UnicodeDecodeError \<and>
   utf8_decode ([0xA9] @ ascii ''\"}'') = Inl UnicodeDecodeError \<and>
   snd (parse_json_stream [ascii ''{\"a\":\"'' @ [0xC3], [0xA9] @ ascii ''\"}''])
     = Raised UnicodeDecodeError"
proof -
  have u: "utf8_decode ([0xC3] @ [0xA9]) = Inr [0xE9]"
    by (simp add: stream_eval)
  from split_character_is_hard_error [OF _ _ u, of "ascii ''{\"a\":\"''" "ascii ''\"}''" "[]"
      "[ascii ''{\"a\":\"'' @ [0xC3], [0xA9] @ ascii ''\"}'']"] u
  show ?thesis by simp
qed

subsection \<open>Order of the yielded values\<close>

text \<open>
  Claim C2 (order preservation, at most one emission): for every sequence of chunks, the
  values yielded correspond one to one, in the order of the yields, to stretches
  \<open>(a, b)\<close> of the text of the stream, each value being what the decoder reads from its
  stretch. The stretches are not empty and each ends before the next starts: no
  character of the stream is part of two yielded values, so a value in the stream is
  yielded at most once, and the values are yielded in the order of their closing
  characters \<open>b - 1\<close>.
\<close>

theorem yielded_once_in_stream_order:
  "\<exists>spans. list_all2 (decoded_at (decoded_text chunks)) (fst (parse_json_stream chunks)) spans
     \<and> in_order spans"
  using for_chunks_spans [of 0 0 "decoded_text chunks" chunks]
  by (auto simp: parse_json_stream_def)

theorem yielded_once_in_stream_order_witness:
  "parse_json_stream [ascii ''{\"a\":1}{\"b\"'', ascii '':2}{\"a\":1}'']
     = ([PyDict [(str ''a'', PyInt 1)], PyDict [(str ''b'', PyInt 2)], PyDict [(str ''a'', PyInt 1)]],
        Finished) \<and>
   decoded_text [ascii ''{\"a\":1}{\"b\"'', ascii '':2}{\"a\":1}''] = str ''{\"a\":1}{\"b\":2}{\"a\":1}'' \<and>
   (\<exists>spans. list_all2 (decoded_at (str ''{\"a\":1}{\"b\":2}{\"a\":1}''))
       [PyDict [(str ''a'', PyInt 1)], PyDict [(str ''b'', PyInt 2)], PyDict [(str ''a'', PyInt 1)]] spans
     \<and> in_order spans)"
proof -
  have p: "parse_json_stream [ascii ''{\"a\":1}{\"b\"'', ascii '':2}{\"a\":1}'']
     = ([PyDict [(str ''a'', PyInt 1)], PyDict [(str ''b'', PyInt 2)], PyDict [(str ''a'', PyInt 1)]],
        Finished)"
    by (simp add: decoder_eval stream_eval)
  have t: "decoded_text [ascii ''{\"a\":1}{\"b\"'', ascii '':2}{\"a\":1}''] = str ''{\"a\":1}{\"b\":2}{\"a\":1}''"
    by (simp add: stream_eval str_def)
  from yielded_once_in_stream_order [of "[ascii ''{\"a\":1}{\"b\"'', ascii '':2}{\"a\":1}'']"]
  have "\<exists>spans. list_all2 (decoded_at (str ''{\"a\":1}{\"b\":2}{\"a\":1}''))
       [PyDict [(str ''a'', PyInt 1)], PyDict [(str ''b'', PyInt 2)], PyDict [(str ''a'', PyInt 1)]] spans
     \<and> in_order spans"
    unfolding p t fst_conv .
  with p t show ?thesis by (intro conjI)
qed

end
